theory Spec2Isabelle
  imports Complex_Main "HOL-Library.Multiset" "HOL-Library.Sublist" "HOL-Library.Char_ord"
    "HOL-Library.List_Lexorder"
begin

section \<open>Data model\<close>

text \<open>
  The service of \<^verbatim>\<open>server.js\<close> keeps two collections in the database
  \<^verbatim>\<open>weatherdb\<close>: \<^verbatim>\<open>records\<close> (weather records per city, written elsewhere) and
  \<^verbatim>\<open>sensors\<close> (readings posted by the device). A stored date is a number of milliseconds
  since the epoch, in UTC.
\<close>

type_synonym timestamp = int

text \<open>
  A JavaScript number is a double: not-a-number, one of the two infinities (which
  \<^verbatim>\<open>JSON.parse\<close> gives for a literal such as \<^verbatim>\<open>1e999\<close>), the negative zero, or a
  finite value, whose binary representation the model does not look into.
\<close>

datatype jsnumber = NaN | PosInfinity | NegInfinity | NegZero | Finite rat

text \<open>The value of a field of a parsed JSON body.\<close>

datatype json =
    JNull
  | JBool bool
  | JNumber jsnumber
  | JString string
  | JArray "json list"
  | JObject "(string \<times> json) list"

text \<open>
  Documents of both collections carry a \<^verbatim>\<open>timestamp\<close> field. The store gives every
  document it stores an identifier \<^verbatim>\<open>_id\<close> of its own; the model leaves it out, and
  a stored document is the document as it was handed to the store.
\<close>

record Stamped =
  timestamp :: timestamp

record WeatherRecord = Stamped +
  city :: string
  region :: string
  others :: "(string \<times> json) list"

record SensorReading = Stamped +
  temperature :: jsnumber
  humidity :: jsnumber

text \<open>
  A document of the aggregation's output: the region (the \<^verbatim>\<open>_id\<close> of the second
  \<^verbatim>\<open>$group\<close>) and the documents pushed into \<^verbatim>\<open>provinces\<close>.
\<close>

record 'p RegionView =
  regionName :: string
  provinces :: "'p list"

record storage =
  records :: "WeatherRecord list"
  sensors :: "SensorReading list"

datatype error = MongoError | RangeError | TypeError

text \<open>
  What the handlers take from outside the program: the regular expression engine of the
  store with option \<^verbatim>\<open>i\<close> (\<open>None\<close>: the pattern is rejected), the language's
  \<^verbatim>\<open>Number\<close> coercion (which returns a number or throws), the clock read by
  \<^verbatim>\<open>new Date()\<close>, and whether a call to the store fails.
\<close>

record world =
  regex_i :: "string \<Rightarrow> (string \<Rightarrow> bool) option"
  Number :: "json \<Rightarrow> error + jsnumber"
  now :: timestamp
  aggregate_fails :: bool
  find_fails :: bool
  insertOne_fails :: bool

section \<open>The aggregation pipeline of the dashboard\<close>

text \<open>
  \<^verbatim>\<open>$group\<close> with \<^verbatim>\<open>$first\<close>: one document per key, the first one met in the input.
  The store leaves the order of the groups open; the model puts them in the order in which
  their keys are first met, and the stages after it sort again.
\<close>

fun group_first :: "('a \<Rightarrow> 'k) \<Rightarrow> 'a list \<Rightarrow> 'a list" where
  "group_first k [] = []"
| "group_first k (x # xs) = x # group_first k (filter (\<lambda>y. k y \<noteq> k x) xs)"

text \<open>\<^verbatim>\<open>$group\<close> with \<^verbatim>\<open>$push\<close>: per key, the documents with that key in input order.\<close>

fun group_push :: "('a \<Rightarrow> 'k) \<Rightarrow> 'a list \<Rightarrow> ('k \<times> 'a list) list" where
  "group_push k [] = []"
| "group_push k (x # xs) =
     (k x, x # filter (\<lambda>y. k y = k x) xs) # group_push k (filter (\<lambda>y. k y \<noteq> k x) xs)"

text \<open>
  \<^verbatim>\<open>matchStage\<close>: empty when the search string is empty (an empty string is falsy),
  otherwise a case-insensitive regular expression on \<^verbatim>\<open>city\<close>, whose pattern is the search
  string as it came.
\<close>

definition matchStage :: "world \<Rightarrow> string \<Rightarrow> error + (WeatherRecord \<Rightarrow> bool)" where
  "matchStage w searchQuery =
     (if searchQuery = [] then Inr (\<lambda>r. True)
      else case regex_i w searchQuery of
             None \<Rightarrow> Inl MongoError
           | Some m \<Rightarrow> Inr (\<lambda>r. m (city r)))"

text \<open>
  The stages of \<^verbatim>\<open>pipeline\<close>, in the order of the source: \<^verbatim>\<open>$match\<close>; \<^verbatim>\<open>$sort\<close>
  by timestamp, newest first; \<^verbatim>\<open>$group\<close> by city, keeping the first document, which
  \<^verbatim>\<open>$replaceRoot\<close> then makes the document itself; \<^verbatim>\<open>$sort\<close> by city;
  \<^verbatim>\<open>$group\<close> by region, pushing the documents into \<^verbatim>\<open>provinces\<close>; \<^verbatim>\<open>$sort\<close> by
  region. \<^verbatim>\<open>$sort\<close> is modelled by the stable insertion sort \<^const>\<open>sort_key\<close>;
  the store does not say which of two documents with equal keys comes first, and the
  theorems below say nothing about that order. Strings compare byte by byte, as under the store's default
  collation.
\<close>

definition pipeline ::
  "(WeatherRecord \<Rightarrow> bool) \<Rightarrow> WeatherRecord list \<Rightarrow> WeatherRecord RegionView list" where
  "pipeline match docs =
     (let matched = filter match docs;
          newest_first = sort_key (\<lambda>r. - timestamp r) matched;
          latest = group_first city newest_first;
          by_city = sort_key city latest;
          grouped = group_push region by_city
      in map (\<lambda>(g, ps). \<lparr>regionName = g, provinces = ps\<rparr>) (sort_key fst grouped))"

text \<open>The cities that pass \<^const>\<open>matchStage\<close>.\<close>

definition city_matches :: "world \<Rightarrow> string \<Rightarrow> string \<Rightarrow> bool" where
  "city_matches w q c =
     (q = [] \<or> (case regex_i w q of None \<Rightarrow> False | Some m \<Rightarrow> m c))"

definition aggregate ::
  "world \<Rightarrow> string \<Rightarrow> WeatherRecord list \<Rightarrow> error + WeatherRecord RegionView list" where
  "aggregate w searchQuery docs =
     (if aggregate_fails w then Inl MongoError
      else case matchStage w searchQuery of
             Inl e \<Rightarrow> Inl e
           | Inr match \<Rightarrow> Inr (pipeline match docs))"

section \<open>A regular expression engine for literal patterns and the dot\<close>

text \<open>
  The search string reaches the store as a pattern. The engine below implements the part
  of the pattern language that the theorems on patterns need: a character that is not a
  metacharacter stands for itself, in either case, and a dot stands for any character but
  a line feed; a pattern matches a string when it matches somewhere in it. A pattern with
  any other metacharacter (backslash, caret, dollar, bar, question mark, star, plus,
  parentheses, brackets, braces) is outside this engine, which answers \<open>None\<close> for it
  whether the store would take it or not; the theorems that use this engine use it on
  patterns made of the first two kinds of characters only.
\<close>

datatype atom = Lit char | AnyChar

definition metachars :: "char list" where
  "metachars = [CHR 0x5C, CHR 0x5E, CHR 0x24, CHR 0x2E, CHR 0x7C, CHR 0x3F, CHR 0x2A,
     CHR 0x2B, CHR 0x28, CHR 0x29, CHR 0x5B, CHR 0x5D, CHR 0x7B, CHR 0x7D]"

definition toLower :: "char \<Rightarrow> char" where
  "toLower c = (if CHR ''A'' \<le> c \<and> c \<le> CHR ''Z'' then char_of (of_char c + (32::nat)) else c)"

definition parse_atom :: "char \<Rightarrow> atom option" where
  "parse_atom c =
     (if c = CHR 0x2E then Some AnyChar
      else if c \<in> set metachars then None
      else Some (Lit c))"

fun parse_pattern :: "string \<Rightarrow> atom list option" where
  "parse_pattern [] = Some []"
| "parse_pattern (c # cs) =
     (case parse_atom c of
        None \<Rightarrow> None
      | Some a \<Rightarrow> (case parse_pattern cs of None \<Rightarrow> None | Some as \<Rightarrow> Some (a # as)))"

fun atom_matches :: "atom \<Rightarrow> char \<Rightarrow> bool" where
  "atom_matches (Lit a) c = (toLower a = toLower c)"
| "atom_matches AnyChar c = (c \<noteq> CHR 0x0A)"

fun matches_at :: "atom list \<Rightarrow> string \<Rightarrow> bool" where
  "matches_at [] s = True"
| "matches_at (a # as) [] = False"
| "matches_at (a # as) (c # s) = (atom_matches a c \<and> matches_at as s)"

fun search :: "atom list \<Rightarrow> string \<Rightarrow> bool" where
  "search as [] = matches_at as []"
| "search as (c # s) = (matches_at as (c # s) \<or> search as s)"

definition regex_fragment :: "string \<Rightarrow> (string \<Rightarrow> bool) option" where
  "regex_fragment pattern = map_option search (parse_pattern pattern)"

text \<open>
  The specification's words for the search: the city contains the search string as a
  substring, letter case apart.
\<close>

definition contains_ci :: "string \<Rightarrow> string \<Rightarrow> bool" where
  "contains_ci q s = sublist (map toLower q) (map toLower s)"

section \<open>The time formatter\<close>

text \<open>
  Modelled from the spec: \<^verbatim>\<open>formatInTimeZone\<close> is a function of the library
  \<^verbatim>\<open>date-fns-tz\<close>, whose code is not in the source. The source calls it as
  \<^verbatim>\<open>formatInTimeZone(t, 'Asia/Bangkok', 'd/M/yyyy HH:mm:ss')\<close>; the specification has it
  convert the timestamp to the fixed zone UTC+7 and render day, month and year and a
  24-hour time, with no padding on day and month and two digits for hours, minutes and
  seconds, and fail on an invalid input. The zone has had the offset +07:00 since April
  1920, and the model applies this offset to every instant. The day count is turned into
  a date of the proleptic Gregorian calendar by era (400 years), century, four-year
  block, year and day of year, the year running from March to February.
\<close>

definition timeZone_offset :: int where
  "timeZone_offset = 7 * 3600 * 1000"

definition max_time :: int where
  "max_time = 8640000000000000"

definition civil_from_days :: "int \<Rightarrow> int \<times> int \<times> int" where
  "civil_from_days days =
     (let z = days + 719468;
          era = z div 146097;
          doe = z mod 146097;
          c = min 3 (doe div 36524);
          doc = doe - 36524 * c;
          q = doc div 1461;
          doq = doc mod 1461;
          a = min 3 (doq div 365);
          doy = doq - 365 * a;
          mp = (5 * doy + 2) div 153;
          d = doy - (153 * mp + 2) div 5 + 1;
          m = (if mp < 10 then mp + 3 else mp - 9);
          y = 400 * era + 100 * c + 4 * q + a + (if m \<le> 2 then 1 else 0)
      in (y, m, d))"

text \<open>
  The calendar itself, against which the conversion is stated: leap years, the lengths of
  the months, the dates that exist, and the number of a date's day, counted from
  1 January 1970 as day 0 by adding the days of the years and of the months before it.
\<close>

definition leap_year :: "int \<Rightarrow> bool" where
  "leap_year y = (y mod 4 = 0 \<and> (y mod 100 \<noteq> 0 \<or> y mod 400 = 0))"

definition days_in_month :: "int \<Rightarrow> int \<Rightarrow> int" where
  "days_in_month y m =
     (if m = 2 then (if leap_year y then 29 else 28)
      else if m \<in> {4, 6, 9, 11} then 30
      else 31)"

definition valid_date :: "int \<Rightarrow> int \<Rightarrow> int \<Rightarrow> bool" where
  "valid_date y m d = (1 \<le> m \<and> m \<le> 12 \<and> 1 \<le> d \<and> d \<le> days_in_month y m)"

definition days_before_year :: "int \<Rightarrow> int" where
  "days_before_year y = 365 * (y - 1) + (y - 1) div 4 - (y - 1) div 100 + (y - 1) div 400"

definition days_before_month :: "int \<Rightarrow> int \<Rightarrow> int" where
  "days_before_month y m = sum_list (map (days_in_month y) [1..m - 1])"

definition day_number :: "int \<Rightarrow> int \<Rightarrow> int \<Rightarrow> int" where
  "day_number y m d =
     days_before_year y - days_before_year 1970 + days_before_month y m + (d - 1)"

text \<open>The inverse of \<^const>\<open>civil_from_days\<close> in closed form, used in the proofs.\<close>

definition days_from_civil :: "int \<Rightarrow> int \<Rightarrow> int \<Rightarrow> int" where
  "days_from_civil y m d =
     (let y' = (if m \<le> 2 then y - 1 else y);
          era = y' div 400;
          yoe = y' mod 400;
          doy = (153 * (if m > 2 then m - 3 else m + 9) + 2) div 5 + d - 1;
          doe = yoe * 365 + yoe div 4 - yoe div 100 + doy
      in era * 146097 + doe - 719468)"

definition digit :: "nat \<Rightarrow> char" where
  "digit n = char_of (48 + n)"

fun dec :: "nat \<Rightarrow> string" where
  "dec n = (if n < 10 then [digit n] else dec (n div 10) @ [digit (n mod 10)])"

declare dec.simps [simp del]

text \<open>Reading a decimal numeral back, to state what \<^const>\<open>dec\<close> prints.\<close>

definition digit_value :: "char \<Rightarrow> nat" where
  "digit_value c = of_char c - 48"

definition decimal_value :: "string \<Rightarrow> nat" where
  "decimal_value s = foldl (\<lambda>v c. 10 * v + digit_value c) 0 s"

definition addLeadingZeros :: "nat \<Rightarrow> nat \<Rightarrow> string" where
  "addLeadingZeros n width = replicate (width - length (dec n)) (CHR ''0'') @ dec n"

record zoned =
  z_year :: int
  z_month :: int
  z_day :: int
  z_hours :: int
  z_minutes :: int
  z_seconds :: int

definition toZonedTime :: "timestamp \<Rightarrow> zoned" where
  "toZonedTime t =
     (let secs = (t + timeZone_offset) div 1000;
          (y, m, d) = civil_from_days (secs div 86400);
          sod = secs mod 86400
      in \<lparr>z_year = y, z_month = m, z_day = d,
          z_hours = sod div 3600, z_minutes = sod mod 3600 div 60, z_seconds = sod mod 60\<rparr>)"

text \<open>
  The tokens of \<^verbatim>\<open>d/M/yyyy HH:mm:ss\<close>: \<^verbatim>\<open>d\<close> and \<^verbatim>\<open>M\<close> print the number as it is,
  \<^verbatim>\<open>yyyy\<close> the year of the era on at least four digits, \<^verbatim>\<open>HH\<close>, \<^verbatim>\<open>mm\<close> and
  \<^verbatim>\<open>ss\<close> on two digits.
\<close>

definition year_of_era :: "int \<Rightarrow> int" where
  "year_of_era y = (if y > 0 then y else 1 - y)"

definition formatString :: "zoned \<Rightarrow> string" where
  "formatString z =
     dec (nat (z_day z)) @ ''/'' @ dec (nat (z_month z)) @ ''/''
     @ addLeadingZeros (nat (year_of_era (z_year z))) 4 @ '' ''
     @ addLeadingZeros (nat (z_hours z)) 2 @ '':''
     @ addLeadingZeros (nat (z_minutes z)) 2 @ '':''
     @ addLeadingZeros (nat (z_seconds z)) 2"

text \<open>
  Modelled from the spec: the formatter itself. A date outside the range of the
  language's dates is invalid, and formatting it throws.
\<close>

definition formatInTimeZone :: "timestamp \<Rightarrow> error + string" where
  "formatInTimeZone t =
     (if \<bar>t\<bar> > max_time \<or> \<bar>t + timeZone_offset\<bar> > max_time then Inl RangeError
      else Inr (formatString (toZonedTime t)))"

section \<open>The dashboard handler\<close>

text \<open>
  What \<^verbatim>\<open>res.render\<close> receives: the regions, the sensor readings, the search string
  and the locale. A formatted document is the document with its
  \<^verbatim>\<open>formattedTimestamp\<close>. A response is a JSON message or a text with a status, or
  the rendered dashboard.
\<close>

datatype ('a, 'b) view =
  View (v_regions: "'a list") (v_sensorData: "'b list") (v_query: string) (v_locale: string)

type_synonym 'd formatted = "'d \<times> string"

type_synonym dashboard =
  "(WeatherRecord formatted RegionView, SensorReading formatted) view"

datatype response = Json nat string | Send nat string | Render dashboard

text \<open>A \<^verbatim>\<open>forEach\<close> whose body may throw: it stops at the first exception.\<close>

fun forEach :: "('a \<Rightarrow> error + 'b) \<Rightarrow> 'a list \<Rightarrow> error + 'b list" where
  "forEach f [] = Inr []"
| "forEach f (x # xs) =
     (case f x of
        Inl e \<Rightarrow> Inl e
      | Inr y \<Rightarrow> (case forEach f xs of Inl e \<Rightarrow> Inl e | Inr ys \<Rightarrow> Inr (y # ys)))"

definition attach_formatted :: "'a Stamped_scheme \<Rightarrow> error + 'a Stamped_scheme formatted" where
  "attach_formatted d =
     (case formatInTimeZone (timestamp d) of Inl e \<Rightarrow> Inl e | Inr s \<Rightarrow> Inr (d, s))"

definition format_region ::
  "WeatherRecord RegionView \<Rightarrow> error + WeatherRecord formatted RegionView" where
  "format_region r =
     (case forEach attach_formatted (provinces r) of
        Inl e \<Rightarrow> Inl e
      | Inr ps \<Rightarrow> Inr \<lparr>regionName = regionName r, provinces = ps\<rparr>)"

text \<open>\<^verbatim>\<open>find({}).sort({ timestamp: -1 }).limit(5)\<close> on the collection \<^verbatim>\<open>sensors\<close>.\<close>

definition sensorData :: "world \<Rightarrow> SensorReading list \<Rightarrow> error + SensorReading list" where
  "sensorData w docs =
     (if find_fails w then Inl MongoError
      else Inr (take 5 (sort_key (\<lambda>s. - timestamp s) docs)))"

text \<open>
  The message of the \<^verbatim>\<open>catch\<close> block of \<^verbatim>\<open>GET /\<close>, a Thai sentence (an error
  occurred), as the bytes of its UTF-8 encoding.
\<close>

definition error_message :: string where
  "error_message = map char_of
     [0xE0, 0xB9, 0x80, 0xE0, 0xB8, 0x81, 0xE0, 0xB8, 0xB4, 0xE0, 0xB8, 0x94, 0xE0, 0xB8,
      0x82, 0xE0, 0xB9, 0x89, 0xE0, 0xB8, 0xAD, 0xE0, 0xB8, 0x9C, 0xE0, 0xB8, 0xB4, 0xE0,
      0xB8, 0x94, 0xE0, 0xB8, 0x9E, 0xE0, 0xB8, 0xA5, 0xE0, 0xB8, 0xB2, 0xE0, 0xB8, 0x94 :: nat]"

text \<open>\<^verbatim>\<open>req.query.q || ''\<close>: the empty string when the request has no \<^verbatim>\<open>q\<close>.\<close>

definition searchQuery :: "string option \<Rightarrow> string" where
  "searchQuery q = (case q of None \<Rightarrow> [] | Some s \<Rightarrow> s)"

text \<open>The body of the \<^verbatim>\<open>try\<close> block of \<^verbatim>\<open>GET /\<close>, up to the call of \<^verbatim>\<open>res.render\<close>.\<close>

definition build_dashboard :: "world \<Rightarrow> string option \<Rightarrow> storage \<Rightarrow> error + dashboard" where
  "build_dashboard w q db =
     (case aggregate w (searchQuery q) (records db) of
        Inl e \<Rightarrow> Inl e
      | Inr regions \<Rightarrow>
          (case forEach format_region regions of
             Inl e \<Rightarrow> Inl e
           | Inr regions' \<Rightarrow>
               (case sensorData w (sensors db) of
                  Inl e \<Rightarrow> Inl e
                | Inr readings \<Rightarrow>
                    (case forEach attach_formatted readings of
                       Inl e \<Rightarrow> Inl e
                     | Inr readings' \<Rightarrow>
                         Inr (View regions' readings' (searchQuery q) ''th-TH'')))))"

definition get_root :: "world \<Rightarrow> string option \<Rightarrow> storage \<Rightarrow> response \<times> storage" where
  "get_root w q db =
     (case build_dashboard w q db of
        Inl e \<Rightarrow> (Send 500 error_message, db)
      | Inr v \<Rightarrow> (Render v, db))"

section \<open>The ingestion handler\<close>

text \<open>
  \<^verbatim>\<open>req.body\<close> is what the JSON middleware leaves there: the parsed object, where a
  field that the object does not have reads as \<^verbatim>\<open>undefined\<close> (\<open>None\<close> here); or,
  with a version of the framework that sets nothing when it has parsed no body,
  \<^verbatim>\<open>undefined\<close> itself, which is the request body \<open>None\<close>.
\<close>

type_synonym body = "string \<rightharpoonup> json"

text \<open>
  The object literal \<^verbatim>\<open>newSensorRecord\<close>: the two coercions in the order of the source,
  either of which may throw, then the clock.
\<close>

definition newSensorRecord :: "world \<Rightarrow> json \<Rightarrow> json \<Rightarrow> error + SensorReading" where
  "newSensorRecord w temperature' humidity' =
     (case Number w temperature' of
        Inl e \<Rightarrow> Inl e
      | Inr t \<Rightarrow>
          (case Number w humidity' of
             Inl e \<Rightarrow> Inl e
           | Inr h \<Rightarrow> Inr \<lparr>timestamp = now w, temperature = t, humidity = h\<rparr>))"

text \<open>
  The \<^verbatim>\<open>try\<close> block of \<^verbatim>\<open>POST /api/sensor\<close>: destructuring an undefined body
  throws; a field that is \<^verbatim>\<open>undefined\<close> gives 400; otherwise the record is built and
  inserted, and the answer is 201.
\<close>

definition try_post_sensor ::
  "world \<Rightarrow> body option \<Rightarrow> storage \<Rightarrow> error + response \<times> storage" where
  "try_post_sensor w req_body db =
     (case req_body of
        None \<Rightarrow> Inl TypeError
      | Some body \<Rightarrow>
          (case (body ''temperature'', body ''humidity'') of
             (Some temperature', Some humidity') \<Rightarrow>
               (case newSensorRecord w temperature' humidity' of
                  Inl e \<Rightarrow> Inl e
                | Inr doc \<Rightarrow>
                    if insertOne_fails w then Inl MongoError
                    else Inr (Json 201 ''Sensor data saved successfully.'',
                              db\<lparr>sensors := sensors db @ [doc]\<rparr>))
           | _ \<Rightarrow> Inr (Json 400 ''Bad Request: Missing temperature or humidity.'', db)))"

text \<open>The handler: the \<^verbatim>\<open>try\<close> block, and 500 from the \<^verbatim>\<open>catch\<close> block.\<close>

definition post_sensor :: "world \<Rightarrow> body option \<Rightarrow> storage \<Rightarrow> response \<times> storage" where
  "post_sensor w req_body db =
     (case try_post_sensor w req_body db of
        Inl e \<Rightarrow> (Json 500 ''Internal Server Error'', db)
      | Inr r \<Rightarrow> r)"

section \<open>Start-up\<close>

text \<open>
  How the start of the process ends: \<^verbatim>\<open>process.exit\<close> with a code, an exception that
  nothing catches, or the server listening.
\<close>

datatype process = Exit nat | Uncaught error | Listening

text \<open>
  \<^verbatim>\<open>connectDB\<close>: nothing to do when the handle \<^verbatim>\<open>db\<close> is set; otherwise connect, and
  leave the process with code 1 when that fails. The result is the handle's state, or the
  exit code.
\<close>

definition connectDB :: "(string \<Rightarrow> bool) \<Rightarrow> string \<Rightarrow> bool \<Rightarrow> nat + bool" where
  "connectDB connects uri db =
     (if db then Inr db
      else if connects uri then Inr True
      else Inl 1)"

text \<open>
  The module's top level: the check of \<^verbatim>\<open>MONGO_URI\<close>, the construction of the client
  (which may throw on a string it cannot parse, and nothing catches that), and the server
  that listens once \<^verbatim>\<open>connectDB\<close> has returned.
\<close>

definition startup :: "string option \<Rightarrow> (string \<Rightarrow> bool) \<Rightarrow> (string \<Rightarrow> bool) \<Rightarrow> process" where
  "startup MONGO_URI client_throws connects =
     (case MONGO_URI of
        None \<Rightarrow> Exit 1
      | Some uri \<Rightarrow>
          if uri = [] \<or> \<not> prefix ''mongodb'' uri then Exit 1
          else if client_throws uri then Uncaught MongoError
          else (case connectDB connects uri False of
                  Inl code \<Rightarrow> Exit code
                | Inr db \<Rightarrow> Listening))"

section \<open>Values for the examples\<close>

text \<open>
  A coercion for the examples. On \<^verbatim>\<open>null\<close>, booleans, numbers, the string
  \<^verbatim>\<open>abc\<close> and objects, the only values it is applied to below, it is what the
  language's \<^verbatim>\<open>Number\<close> computes: an object that has a field \<^verbatim>\<open>toString\<close> cannot be
  converted to a primitive value, since a field of a parsed JSON object is never a
  function, and the conversion throws; any other object converts to not-a-number. It
  answers not-a-number for every other string and for arrays, which the language does not
  always do.
\<close>

definition Number_sample :: "json \<Rightarrow> error + jsnumber" where
  "Number_sample v =
     (case v of
        JNull \<Rightarrow> Inr (Finite 0)
      | JBool b \<Rightarrow> Inr (Finite (if b then 1 else 0))
      | JNumber n \<Rightarrow> Inr n
      | JObject kvs \<Rightarrow> (if ''toString'' \<in> fst ` set kvs then Inl TypeError else Inr NaN)
      | _ \<Rightarrow> Inr NaN)"

definition sample_world :: world where
  "sample_world =
     \<lparr>regex_i = regex_fragment, Number = Number_sample, now = 1709632800000,
      aggregate_fails = False, find_fails = False, insertOne_fails = False\<rparr>"

definition weather :: "string \<Rightarrow> string \<Rightarrow> timestamp \<Rightarrow> WeatherRecord" where
  "weather c g t = \<lparr>timestamp = t, city = c, region = g, others = []\<rparr>"

definition reading :: "timestamp \<Rightarrow> SensorReading" where
  "reading t = \<lparr>timestamp = t, temperature = Finite 25, humidity = Finite 60\<rparr>"

definition sample_records :: "WeatherRecord list" where
  "sample_records =
     [weather ''Bangkok'' ''Central'' 1000, weather ''Chiang Mai'' ''North'' 5000,
      weather ''Bangkok'' ''Central'' 7000, weather ''Ayutthaya'' ''Central'' 2000]"

definition small_storage :: storage where
  "small_storage =
     \<lparr>records = [weather ''Bangkok'' ''Central'' 1709632800000], sensors = [reading 0]\<rparr>"

definition sample_storage :: storage where
  "sample_storage =
     \<lparr>records = sample_records, sensors = map reading [3000, 1000, 6000, 2000, 5000, 4000]\<rparr>"

section \<open>Grouping and sorting\<close>

lemma set_group_first: "set (group_first k xs) \<subseteq> set xs"
  by (induction k xs rule: group_first.induct) auto

lemma keys_group_first: "k ` set (group_first k xs) = k ` set xs"
proof (induction k xs rule: group_first.induct)
  case (1 k)
  show ?case by simp
next
  case (2 k x xs)
  have "k ` set (x # xs) = insert (k x) (k ` set (filter (\<lambda>y. k y \<noteq> k x) xs))"
    by auto
  with 2 show ?case by simp
qed

lemma distinct_keys_group_first: "distinct (map k (group_first k xs))"
proof (induction k xs rule: group_first.induct)
  case (1 k)
  show ?case by simp
next
  case (2 k x xs)
  have "k x \<notin> k ` set (group_first k (filter (\<lambda>y. k y \<noteq> k x) xs))"
    by (auto simp: keys_group_first)
  with 2 show ?case by simp
qed

lemma group_first_least:
  "sorted (map f xs) \<Longrightarrow> x \<in> set (group_first k xs) \<Longrightarrow> y \<in> set xs \<Longrightarrow> k y = k x
     \<Longrightarrow> f x \<le> f y"
proof (induction k xs rule: group_first.induct)
  case (1 k)
  then show ?case by simp
next
  case (2 k z zs)
  let ?rest = "filter (\<lambda>y. k y \<noteq> k z) zs"
  show ?case
  proof (cases "x = z")
    case True
    with "2.prems" show ?thesis by auto
  next
    case False
    with "2.prems" have x: "x \<in> set (group_first k ?rest)" by simp
    then have "x \<in> set ?rest" using set_group_first by fastforce
    then have "k x \<noteq> k z" by simp
    with "2.prems" have y: "y \<in> set ?rest" by auto
    have "sorted (map f ?rest)"
      using "2.prems"(1) by (simp add: sorted_filter)
    from "2.IH" [OF this x y "2.prems"(4)] show ?thesis .
  qed
qed

lemma group_push_member:
  "(g, ys) \<in> set (group_push k xs) \<Longrightarrow> ys = filter (\<lambda>y. k y = g) xs \<and> ys \<noteq> []"
proof (induction k xs rule: group_push.induct)
  case (1 k)
  then show ?case by simp
next
  case (2 k x xs)
  let ?rest = "filter (\<lambda>y. k y \<noteq> k x) xs"
  from "2.prems" consider "g = k x" "ys = x # filter (\<lambda>y. k y = k x) xs"
    | "(g, ys) \<in> set (group_push k ?rest)" by auto
  then show ?case
  proof cases
    case 1
    then show ?thesis by simp
  next
    case 2
    with "2.IH" have ys: "ys = filter (\<lambda>y. k y = g) ?rest" and ne: "ys \<noteq> []" by auto
    from ne ys obtain y where "y \<in> set ?rest" "k y = g"
      by (metis (mono_tags, lifting) filter_False mem_Collect_eq set_filter)
    then have "g \<noteq> k x" by auto
    moreover have "filter (\<lambda>y. k y = g) ?rest = filter (\<lambda>y. k y = g) xs"
      using \<open>g \<noteq> k x\<close> by (induction xs) auto
    ultimately show ?thesis using ys ne by simp
  qed
qed

lemma keys_group_push: "fst ` set (group_push k xs) = k ` set xs"
proof (induction k xs rule: group_push.induct)
  case (1 k)
  show ?case by simp
next
  case (2 k x xs)
  have "k ` set (x # xs) = insert (k x) (k ` set (filter (\<lambda>y. k y \<noteq> k x) xs))"
    by auto
  with 2 show ?case by simp
qed

lemma distinct_keys_group_push: "distinct (map fst (group_push k xs))"
proof (induction k xs rule: group_push.induct)
  case (1 k)
  show ?case by simp
next
  case (2 k x xs)
  have "k x \<notin> fst ` set (group_push k (filter (\<lambda>y. k y \<noteq> k x) xs))"
    by (auto simp: keys_group_push)
  with 2 show ?case by simp
qed

lemma mset_group_push: "mset (concat (map snd (group_push k xs))) = mset xs"
proof (induction k xs rule: group_push.induct)
  case (1 k)
  show ?case by simp
next
  case (2 k x xs)
  have "mset (filter (\<lambda>y. k y = k x) xs) + mset (filter (\<lambda>y. k y \<noteq> k x) xs) = mset xs"
    by (induction xs) auto
  with 2 show ?case by (simp add: add.assoc)
qed


lemma provinces_pipeline:
  "concat (map provinces (pipeline p docs)) =
     concat (map snd (sort_key fst (group_push region (sort_key city
       (group_first city (sort_key (\<lambda>r. - timestamp r) (filter p docs)))))))"
proof -
  show ?thesis by (simp add: pipeline_def Let_def case_prod_unfold comp_def)
qed

lemma mset_concat_sort_key:
  "mset (concat (map snd (sort_key f gs))) = mset (concat (map snd gs))"
proof -
  have "mset (concat (map snd ys)) = (\<Sum>y\<in>#mset ys. mset (snd y))" for ys :: "('b \<times> 'a list) list"
    by (induction ys) auto
  then show ?thesis by simp
qed

lemma mset_pipeline:
  "mset (concat (map provinces (pipeline p docs))) =
     mset (group_first city (sort_key (\<lambda>r. - timestamp r) (filter p docs)))"
  by (simp add: provinces_pipeline mset_concat_sort_key mset_group_push)

lemma aggregate_Inr:
  "aggregate w q docs = Inr views \<Longrightarrow>
     \<exists>p. matchStage w q = Inr p \<and> views = pipeline p docs
       \<and> (\<forall>d. p d = city_matches w q (city d))"
  by (auto simp: aggregate_def matchStage_def city_matches_def
           split: if_splits sum.splits option.splits)


lemma aggregate_returns:
  "\<not> aggregate_fails w \<Longrightarrow> q = [] \<or> regex_i w q \<noteq> None
     \<Longrightarrow> \<exists>views. aggregate w q docs = Inr views"
  by (auto simp: aggregate_def matchStage_def)

lemma city_matches_pattern: "city_matches w q c \<Longrightarrow> q = [] \<or> regex_i w q \<noteq> None"
  by (auto simp: city_matches_def)

lemma regionName_pipeline:
  "map regionName (pipeline p docs) =
     map fst (sort_key fst (group_push region (sort_key city
       (group_first city (sort_key (\<lambda>r. - timestamp r) (filter p docs))))))"
proof -
  show ?thesis by (simp add: pipeline_def Let_def case_prod_unfold comp_def)
qed

lemma provinces_of_view:
  assumes "v \<in> set (pipeline p docs)"
  shows "provinces v = filter (\<lambda>r. region r = regionName v)
           (sort_key city (group_first city (sort_key (\<lambda>r. - timestamp r) (filter p docs))))"
proof -
  from assms obtain g ps where v: "v = \<lparr>regionName = g, provinces = ps\<rparr>"
    and "(g, ps) \<in> set (group_push region (sort_key city
           (group_first city (sort_key (\<lambda>r. - timestamp r) (filter p docs)))))"
    by (auto simp: pipeline_def Let_def)
  from group_push_member [OF this(2)] v show ?thesis by simp
qed

lemma filter_key_singleton:
  "distinct (map k xs) \<Longrightarrow> r \<in> set xs \<Longrightarrow> filter (\<lambda>x. k x = k r) xs = [r]"
proof (induction xs)
  case Nil
  then show ?case by simp
next
  case (Cons a as)
  show ?case
  proof (cases "a = r")
    case True
    with Cons.prems have "\<forall>x \<in> set as. k x \<noteq> k r" by (auto simp: image_iff)
    then have "filter (\<lambda>x. k x = k r) as = []" by (simp add: filter_empty_conv)
    with True show ?thesis by simp
  next
    case False
    with Cons.prems have "r \<in> set as" "k a \<noteq> k r" by auto
    with Cons show ?thesis by simp
  qed
qed

section \<open>The dashboard shows the latest record of each city\<close>

text \<open>
  C1. When the store does not fail, the aggregation returns a result for every search
  string that is empty or that the store takes as a pattern; and every city that has a
  record in \<^verbatim>\<open>records\<close> and passes the match stage (every city, when the search string
  is empty) has exactly one record among the provinces of the returned regions; that
  record is one of the stored records, and no stored record of the city has a later
  timestamp.
\<close>

theorem latest_record_per_city:
  assumes up: "\<not> aggregate_fails w"
      and d: "d \<in> set docs"
      and m: "city_matches w q (city d)"
  shows "\<exists>views. aggregate w q docs = Inr views
           \<and> (\<exists>r. filter (\<lambda>x. city x = city d) (concat (map provinces views)) = [r]
                 \<and> r \<in> set docs
                 \<and> (\<forall>d' \<in> set docs. city d' = city d \<longrightarrow> timestamp d' \<le> timestamp r))"
proof -
  from aggregate_returns [OF up city_matches_pattern [OF m]]
  obtain views where agg: "aggregate w q docs = Inr views" by blast
  from aggregate_Inr [OF agg] obtain p where views: "views = pipeline p docs"
    and p: "\<And>x. p x = city_matches w q (city x)" by blast
  let ?sorted = "sort_key (\<lambda>r. - timestamp r) (filter p docs)"
  let ?latest = "group_first city ?sorted"
  let ?out = "concat (map provinces views)"
  have out: "mset ?out = mset ?latest"
    by (simp add: views mset_pipeline)
  then have set_out: "set ?out = set ?latest"
    by (rule mset_eq_setD)
  have "distinct (map city ?latest)"
    by (rule distinct_keys_group_first)
  moreover have "mset (map city ?out) = mset (map city ?latest)"
    using out by (metis mset_map)
  ultimately have dist: "distinct (map city ?out)"
    by (metis mset_eq_imp_distinct_iff)
  have "d \<in> set (filter p docs)"
    using d m p by simp
  then have "city d \<in> city ` set ?latest"
    by (simp add: keys_group_first)
  then obtain r where r: "r \<in> set ?latest" "city r = city d"
    by (metis imageE)
  from r(1) have r_out: "r \<in> set ?out"
    by (simp only: set_out)
  have one: "filter (\<lambda>x. city x = city d) ?out = [r]"
    using filter_key_singleton [OF dist r_out] r(2) by simp
  have "r \<in> set ?sorted"
    using r(1) set_group_first by fastforce
  then have r_docs: "r \<in> set docs" by simp
  have newest: "timestamp d' \<le> timestamp r" if d': "d' \<in> set docs" "city d' = city d" for d'
  proof -
    have "p d'" using p m d'(2) by simp
    with d'(1) have in_sorted: "d' \<in> set ?sorted" by simp
    have "sorted (map (\<lambda>r. - timestamp r) ?sorted)"
      by (rule sorted_sort_key)
    from group_first_least [OF this r(1) in_sorted] d'(2) r(2)
    show ?thesis by simp
  qed
  from agg one r_docs newest show ?thesis by blast
qed

theorem latest_record_per_city_witness:
  "\<not> aggregate_fails sample_world
   \<and> weather ''Bangkok'' ''Central'' 1000 \<in> set sample_records
   \<and> city_matches sample_world ''ang'' (city (weather ''Bangkok'' ''Central'' 1000))
   \<and> (\<exists>views. aggregate sample_world ''ang'' sample_records = Inr views
         \<and> (\<exists>r. filter (\<lambda>x. city x = city (weather ''Bangkok'' ''Central'' 1000))
                    (concat (map provinces views)) = [r]
               \<and> r \<in> set sample_records
               \<and> (\<forall>d' \<in> set sample_records. city d' = city (weather ''Bangkok'' ''Central'' 1000)
                     \<longrightarrow> timestamp d' \<le> timestamp r)))
   \<and> aggregate sample_world ''ang'' sample_records =
       Inr [\<lparr>regionName = ''Central'', provinces = [weather ''Bangkok'' ''Central'' 7000]\<rparr>,
            \<lparr>regionName = ''North'', provinces = [weather ''Chiang Mai'' ''North'' 5000]\<rparr>]"
proof -
  have up: "\<not> aggregate_fails sample_world"
    by (simp add: sample_world_def)
  have d: "weather ''Bangkok'' ''Central'' 1000 \<in> set sample_records"
    by (simp add: sample_records_def)
  have m: "city_matches sample_world ''ang'' (city (weather ''Bangkok'' ''Central'' 1000))"
    by code_simp
  have agg: "aggregate sample_world ''ang'' sample_records =
     Inr [\<lparr>regionName = ''Central'', provinces = [weather ''Bangkok'' ''Central'' 7000]\<rparr>,
          \<lparr>regionName = ''North'', provinces = [weather ''Chiang Mai'' ''North'' 5000]\<rparr>]"
    by code_simp
  from latest_record_per_city [OF up d m] up d m agg show ?thesis
    by blast
qed

section \<open>The order of regions and provinces\<close>

text \<open>
  C3. When the aggregation returns, the regions come in strictly ascending order of their
  names, and in each region the provinces come in strictly ascending order of their city
  names.
\<close>

theorem regions_and_provinces_sorted:
  assumes agg: "aggregate w q docs = Inr views"
  shows "sorted_wrt (<) (map regionName views)
           \<and> (\<forall>v \<in> set views. sorted_wrt (<) (map city (provinces v)))"
proof -
  from aggregate_Inr [OF agg] obtain p where views: "views = pipeline p docs" by blast
  let ?latest = "group_first city (sort_key (\<lambda>r. - timestamp r) (filter p docs))"
  let ?by_city = "sort_key city ?latest"
  let ?groups = "sort_key fst (group_push region ?by_city)"
  have "sorted (map fst ?groups)"
    by (rule sorted_sort_key)
  moreover have "distinct (map fst ?groups)"
    using distinct_keys_group_push [of region ?by_city]
    by (metis mset_eq_imp_distinct_iff mset_map mset_sort)
  ultimately have regions: "sorted_wrt (<) (map regionName views)"
    by (simp add: views regionName_pipeline strict_sorted_iff)
  have by_city: "sorted_wrt (<) (map city ?by_city)"
    using distinct_keys_group_first [of city "sort_key (\<lambda>r. - timestamp r) (filter p docs)"]
    by (metis strict_sorted_iff sorted_sort_key mset_eq_imp_distinct_iff mset_map mset_sort)
  have "sorted_wrt (<) (map city (provinces v))" if "v \<in> set views" for v
  proof -
    from that have "provinces v = filter (\<lambda>r. region r = regionName v) ?by_city"
      unfolding views by (rule provinces_of_view)
    moreover have "sorted_wrt (\<lambda>x y. city x < city y) ?by_city"
      using by_city by (simp add: sorted_wrt_map)
    ultimately show ?thesis
      by (simp add: sorted_wrt_map sorted_wrt_filter)
  qed
  with regions show ?thesis by blast
qed

theorem regions_and_provinces_sorted_witness:
  "aggregate sample_world [] sample_records =
     Inr [\<lparr>regionName = ''Central'',
           provinces = [weather ''Ayutthaya'' ''Central'' 2000, weather ''Bangkok'' ''Central'' 7000]\<rparr>,
          \<lparr>regionName = ''North'', provinces = [weather ''Chiang Mai'' ''North'' 5000]\<rparr>]
   \<and> sorted_wrt (<) [''Central'', ''North'']
   \<and> sorted_wrt (<) [''Ayutthaya'', ''Bangkok'']"
proof -
  have agg: "aggregate sample_world [] sample_records =
     Inr [\<lparr>regionName = ''Central'',
           provinces = [weather ''Ayutthaya'' ''Central'' 2000, weather ''Bangkok'' ''Central'' 7000]\<rparr>,
          \<lparr>regionName = ''North'', provinces = [weather ''Chiang Mai'' ''North'' 5000]\<rparr>]"
    by code_simp
  from regions_and_provinces_sorted [OF agg] agg show ?thesis
    by (simp add: weather_def)
qed

section \<open>The recent sensor readings\<close>

text \<open>
  C6. When the store does not fail, the sensor query returns five readings, or all of
  them when the collection holds fewer; they come in descending order of timestamp; they
  are readings of the collection, and every reading left out is no later than every
  reading returned.
\<close>

theorem sensorData_five_most_recent:
  assumes up: "\<not> find_fails w"
  shows "\<exists>rs. sensorData w docs = Inr rs
       \<and> length rs = min 5 (length docs)
       \<and> sorted_wrt (\<lambda>x y. timestamp x \<ge> timestamp y) rs
       \<and> mset rs \<subseteq># mset docs
       \<and> (\<forall>old \<in># mset docs - mset rs. \<forall>r \<in> set rs. timestamp old \<le> timestamp r)
       \<and> (length docs \<le> 5 \<longrightarrow> mset rs = mset docs)"
proof -
  let ?s = "sort_key (\<lambda>s. - timestamp s) docs"
  define rs where "rs = take 5 ?s"
  from up have ret: "sensorData w docs = Inr rs"
    by (simp add: sensorData_def rs_def)
  have split: "mset docs = mset rs + mset (drop 5 ?s)"
    unfolding rs_def by (metis append_take_drop_id mset_append mset_sort)
  have "sorted (map (\<lambda>s. - timestamp s) ?s)"
    by (rule sorted_sort_key)
  then have desc: "sorted_wrt (\<lambda>x y. timestamp x \<ge> timestamp y) ?s"
    by (simp add: sorted_wrt_map)
  then have "sorted_wrt (\<lambda>x y. timestamp x \<ge> timestamp y) (take 5 ?s @ drop 5 ?s)"
    by simp
  then have below: "\<forall>r \<in> set (take 5 ?s). \<forall>old \<in> set (drop 5 ?s). timestamp old \<le> timestamp r"
    unfolding sorted_wrt_append by blast
  have 1: "length rs = min 5 (length docs)"
    by (simp add: rs_def min.commute)
  have 2: "sorted_wrt (\<lambda>x y. timestamp x \<ge> timestamp y) rs"
    unfolding rs_def using desc by (rule sorted_wrt_take)
  have 3: "mset rs \<subseteq># mset docs"
    by (simp add: split)
  have 4: "\<forall>old \<in># mset docs - mset rs. \<forall>r \<in> set rs. timestamp old \<le> timestamp r"
    using below by (simp add: split rs_def)
  have 5: "length docs \<le> 5 \<longrightarrow> mset rs = mset docs"
    by (simp add: rs_def)
  from ret 1 2 3 4 5 show ?thesis by blast
qed

theorem sensorData_five_most_recent_witness:
  "\<not> find_fails sample_world
   \<and> (\<exists>rs. sensorData sample_world (map reading [3000, 1000, 6000, 2000, 5000, 4000]) = Inr rs
         \<and> length rs = min 5 (length (map reading [3000, 1000, 6000, 2000, 5000, 4000]))
         \<and> sorted_wrt (\<lambda>x y. timestamp x \<ge> timestamp y) rs)
   \<and> sensorData sample_world (map reading [3000, 1000, 6000, 2000, 5000, 4000])
       = Inr (map reading [6000, 5000, 4000, 3000, 2000])
   \<and> length (map reading [1000, 2000]) \<le> 5
   \<and> (\<exists>rs. sensorData sample_world (map reading [1000, 2000]) = Inr rs
         \<and> mset rs = mset (map reading [1000, 2000]))
   \<and> sensorData sample_world (map reading [1000, 2000]) = Inr (map reading [2000, 1000])"
proof -
  have up: "\<not> find_fails sample_world"
    by (simp add: sample_world_def)
  have six: "sensorData sample_world (map reading [3000, 1000, 6000, 2000, 5000, 4000])
     = Inr (map reading [6000, 5000, 4000, 3000, 2000])"
    by code_simp
  have two: "sensorData sample_world (map reading [1000, 2000]) = Inr (map reading [2000, 1000])"
    by code_simp
  have few: "length (map reading [1000, 2000]) \<le> 5"
    by simp
  from sensorData_five_most_recent [OF up, of "map reading [3000, 1000, 6000, 2000, 5000, 4000]"]
    sensorData_five_most_recent [OF up, of "map reading [1000, 2000]"] up six two few
  show ?thesis by blast
qed

section \<open>The ingestion handler rejects a request without a field\<close>

text \<open>
  C4, as the code has it. A field is missing when the body is an object that does not
  have it, so that it reads as \<^verbatim>\<open>undefined\<close>: then the handler answers 400 with the
  message \<^verbatim>\<open>Bad Request: Missing temperature or humidity.\<close> and writes nothing. A
  field whose value is \<^verbatim>\<open>null\<close> is not missing for the handler. When the request has
  no parsed body at all, the handler answers 500 and writes nothing.
\<close>

theorem post_sensor_missing_field:
  "(req_body = Some body \<and> (body ''temperature'' = None \<or> body ''humidity'' = None)
      \<longrightarrow> post_sensor w req_body db
            = (Json 400 ''Bad Request: Missing temperature or humidity.'', db))
   \<and> (req_body = None
      \<longrightarrow> post_sensor w req_body db = (Json 500 ''Internal Server Error'', db))"
  by (auto simp: post_sensor_def try_post_sensor_def split: option.splits)

theorem post_sensor_missing_field_witness:
  "([''temperature'' \<mapsto> JNumber (Finite 25)] ''temperature'' = None
      \<or> [''temperature'' \<mapsto> JNumber (Finite 25)] ''humidity'' = None)
   \<and> post_sensor sample_world (Some [''temperature'' \<mapsto> JNumber (Finite 25)]) sample_storage
       = (Json 400 ''Bad Request: Missing temperature or humidity.'', sample_storage)
   \<and> post_sensor sample_world None sample_storage
       = (Json 500 ''Internal Server Error'', sample_storage)"
proof -
  have h: "[''temperature'' \<mapsto> JNumber (Finite 25)] ''temperature'' = None
      \<or> [''temperature'' \<mapsto> JNumber (Finite 25)] ''humidity'' = None"
    by simp
  from post_sensor_missing_field
    [of "Some [''temperature'' \<mapsto> JNumber (Finite 25)]" "[''temperature'' \<mapsto> JNumber (Finite 25)]"
      sample_world sample_storage]
    post_sensor_missing_field [of None Map.empty sample_world sample_storage] h
  show ?thesis by blast
qed

text \<open>
  C4, as the specification states it, counts a \<^verbatim>\<open>null\<close> field as missing. The
  handler accepts the body \<^verbatim>\<open>{temperature: null, humidity: 60}\<close>: it answers 201 and
  stores a reading whose temperature is the coercion of \<^verbatim>\<open>null\<close>, which is 0.
\<close>

theorem post_sensor_null_field_accepted:
  "post_sensor sample_world
     (Some [''temperature'' \<mapsto> JNull, ''humidity'' \<mapsto> JNumber (Finite 60)]) sample_storage
   = (Json 201 ''Sensor data saved successfully.'',
      sample_storage\<lparr>sensors := sensors sample_storage
        @ [\<lparr>timestamp = 1709632800000, temperature = Finite 0, humidity = Finite 60\<rparr>]\<rparr>)"
  by (simp add: post_sensor_def try_post_sensor_def newSensorRecord_def sample_world_def
      Number_sample_def)

section \<open>The ingestion handler stores one reading\<close>

text \<open>
  C5, as the code has it. When the body has both fields, the \<^verbatim>\<open>Number\<close> coercions of
  the two values return, and the insertion does not fail, the handler appends one reading
  to \<^verbatim>\<open>sensors\<close>, whose temperature and humidity are the two coerced numbers and whose
  timestamp is the clock's time, and answers 201. This holds for every coercion and every
  value: a value that coerces to not-a-number is stored as not-a-number.
\<close>

theorem post_sensor_persists_reading:
  assumes "body ''temperature'' = Some t" and "body ''humidity'' = Some h"
      and "Number w t = Inr x" and "Number w h = Inr y"
      and "\<not> insertOne_fails w"
  shows "post_sensor w (Some body) db =
           (Json 201 ''Sensor data saved successfully.'',
            db\<lparr>sensors := sensors db
               @ [\<lparr>timestamp = now w, temperature = x, humidity = y\<rparr>]\<rparr>)"
  using assms by (simp add: post_sensor_def try_post_sensor_def newSensorRecord_def)

theorem post_sensor_persists_reading_witness:
  "[''temperature'' \<mapsto> JString ''abc'', ''humidity'' \<mapsto> JNumber (Finite 60)] ''temperature''
     = Some (JString ''abc'')
   \<and> [''temperature'' \<mapsto> JString ''abc'', ''humidity'' \<mapsto> JNumber (Finite 60)] ''humidity''
     = Some (JNumber (Finite 60))
   \<and> Number sample_world (JString ''abc'') = Inr NaN
   \<and> Number sample_world (JNumber (Finite 60)) = Inr (Finite 60)
   \<and> \<not> insertOne_fails sample_world
   \<and> post_sensor sample_world
        (Some [''temperature'' \<mapsto> JString ''abc'', ''humidity'' \<mapsto> JNumber (Finite 60)])
        sample_storage
      = (Json 201 ''Sensor data saved successfully.'',
         sample_storage\<lparr>sensors := sensors sample_storage
           @ [\<lparr>timestamp = now sample_world, temperature = NaN, humidity = Finite 60\<rparr>]\<rparr>)
   \<and> now sample_world = 1709632800000"
proof -
  have t: "[''temperature'' \<mapsto> JString ''abc'', ''humidity'' \<mapsto> JNumber (Finite 60)] ''temperature''
     = Some (JString ''abc'')"
    by simp
  have h: "[''temperature'' \<mapsto> JString ''abc'', ''humidity'' \<mapsto> JNumber (Finite 60)] ''humidity''
     = Some (JNumber (Finite 60))"
    by simp
  have x: "Number sample_world (JString ''abc'') = Inr NaN"
    by (simp add: sample_world_def Number_sample_def)
  have y: "Number sample_world (JNumber (Finite 60)) = Inr (Finite 60)"
    by (simp add: sample_world_def Number_sample_def)
  have i: "\<not> insertOne_fails sample_world"
    by (simp add: sample_world_def)
  have n: "now sample_world = 1709632800000"
    by (simp add: sample_world_def)
  from post_sensor_persists_reading [OF t h x y i, of sample_storage] t h x y i n show ?thesis
    by blast
qed

text \<open>
  C5, as the specification states it, has every request with both fields present stored
  and answered with 201. The coercion of the body
  \<^verbatim>\<open>{temperature: {valueOf: 0, toString: 0}, humidity: 60}\<close> throws, since neither
  \<^verbatim>\<open>valueOf\<close> nor \<^verbatim>\<open>toString\<close> of the object is a function: the handler answers 500
  and stores nothing.
\<close>

theorem post_sensor_uncoercible_value:
  "post_sensor sample_world
     (Some [''temperature'' \<mapsto> JObject [(''valueOf'', JNumber (Finite 0)),
                                            (''toString'', JNumber (Finite 0))],
            ''humidity'' \<mapsto> JNumber (Finite 60)])
     sample_storage
   = (Json 500 ''Internal Server Error'', sample_storage)"
  by (simp add: post_sensor_def try_post_sensor_def newSensorRecord_def sample_world_def
      Number_sample_def)

text \<open>
  When a coercion throws or the insertion fails, the answer is 500 and nothing is stored.
\<close>

lemma post_sensor_coercion_failure:
  assumes "body ''temperature'' = Some t" and "body ''humidity'' = Some h"
      and "Number w t = Inl e \<or> Number w h = Inl e"
  shows "post_sensor w (Some body) db = (Json 500 ''Internal Server Error'', db)"
  using assms
  by (auto simp: post_sensor_def try_post_sensor_def newSensorRecord_def split: sum.splits)

lemma post_sensor_insert_failure:
  assumes "body ''temperature'' = Some t" and "body ''humidity'' = Some h"
      and "insertOne_fails w"
  shows "post_sensor w (Some body) db = (Json 500 ''Internal Server Error'', db)"
  using assms
  by (auto simp: post_sensor_def try_post_sensor_def split: sum.splits)

section \<open>The ingestion handler stores nothing else\<close>

text \<open>
  C10. The response and the new state depend on the body through its fields
  \<^verbatim>\<open>temperature\<close> and \<^verbatim>\<open>humidity\<close> only; and when the request is accepted, the
  collection \<^verbatim>\<open>records\<close> is unchanged and \<^verbatim>\<open>sensors\<close> has one more document, which
  has the three fields \<^verbatim>\<open>timestamp\<close>, \<^verbatim>\<open>temperature\<close> and \<^verbatim>\<open>humidity\<close> and no
  other: the clock's time and the coercions of the two fields of the body.
\<close>

theorem post_sensor_ignores_other_fields:
  "(body' ''temperature'' = body ''temperature'' \<and> body' ''humidity'' = body ''humidity''
      \<longrightarrow> post_sensor w (Some body') db = post_sensor w (Some body) db)
   \<and> (post_sensor w req_body db = (Json 201 msg, db')
      \<longrightarrow> records db' = records db
        \<and> (\<exists>b t h x y. req_body = Some b
             \<and> b ''temperature'' = Some t \<and> b ''humidity'' = Some h
             \<and> Number w t = Inr x \<and> Number w h = Inr y
             \<and> sensors db' = sensors db
                 @ [\<lparr>timestamp = now w, temperature = x, humidity = y\<rparr>]))"
  by (auto simp: post_sensor_def try_post_sensor_def newSensorRecord_def
           split: option.splits if_splits sum.splits)

theorem post_sensor_ignores_other_fields_witness:
  "post_sensor sample_world
     (Some [''temperature'' \<mapsto> JNumber (Finite 25), ''humidity'' \<mapsto> JNumber (Finite 60),
            ''device'' \<mapsto> JString ''esp32''])
     sample_storage
   = post_sensor sample_world
       (Some [''temperature'' \<mapsto> JNumber (Finite 25), ''humidity'' \<mapsto> JNumber (Finite 60)])
       sample_storage
   \<and> post_sensor sample_world
       (Some [''temperature'' \<mapsto> JNumber (Finite 25), ''humidity'' \<mapsto> JNumber (Finite 60)])
       sample_storage
     = (Json 201 ''Sensor data saved successfully.'',
        sample_storage\<lparr>sensors := sensors sample_storage
          @ [\<lparr>timestamp = 1709632800000, temperature = Finite 25, humidity = Finite 60\<rparr>]\<rparr>)
   \<and> records (sample_storage\<lparr>sensors := sensors sample_storage
          @ [\<lparr>timestamp = 1709632800000, temperature = Finite 25, humidity = Finite 60\<rparr>]\<rparr>)
     = records sample_storage"
proof -
  let ?body = "[''temperature'' \<mapsto> JNumber (Finite 25), ''humidity'' \<mapsto> JNumber (Finite 60)]"
  let ?body' = "?body(''device'' \<mapsto> JString ''esp32'')"
  let ?db' = "sample_storage\<lparr>sensors := sensors sample_storage
          @ [\<lparr>timestamp = 1709632800000, temperature = Finite 25, humidity = Finite 60\<rparr>]\<rparr>"
  have same: "?body' ''temperature'' = ?body ''temperature'' \<and> ?body' ''humidity'' = ?body ''humidity''"
    by simp
  have accepted: "post_sensor sample_world (Some ?body) sample_storage
     = (Json 201 ''Sensor data saved successfully.'', ?db')"
    by (simp add: post_sensor_def try_post_sensor_def newSensorRecord_def sample_world_def
        Number_sample_def)
  from post_sensor_ignores_other_fields
    [of ?body' ?body sample_world sample_storage "Some ?body"
      "''Sensor data saved successfully.''" ?db']
    same accepted
  show ?thesis by simp
qed

section \<open>The process listens only after a successful start\<close>

text \<open>
  C8. The process leaves with code 1 when \<^verbatim>\<open>MONGO_URI\<close> is absent, when it does not
  start with \<^verbatim>\<open>mongodb\<close> (the empty string included), and when the connection fails;
  it ends on the uncaught exception when the client refuses the string. The server
  listens only when the string is there, starts with \<^verbatim>\<open>mongodb\<close>, is taken by the
  client, and the connection is made. With a client that takes or connects only strings
  that start with \<^verbatim>\<open>mongodb://\<close> or \<^verbatim>\<open>mongodb+srv://\<close>, the server does not listen
  on any other string.
\<close>

theorem startup_fatal:
  "(MONGO_URI = None \<longrightarrow> startup MONGO_URI client_throws connects = Exit 1)
   \<and> (MONGO_URI = Some uri \<and> \<not> prefix ''mongodb'' uri
        \<longrightarrow> startup MONGO_URI client_throws connects = Exit 1)
   \<and> (MONGO_URI = Some uri \<and> prefix ''mongodb'' uri \<and> client_throws uri
        \<longrightarrow> startup MONGO_URI client_throws connects = Uncaught MongoError)
   \<and> (MONGO_URI = Some uri \<and> prefix ''mongodb'' uri \<and> \<not> client_throws uri \<and> \<not> connects uri
        \<longrightarrow> startup MONGO_URI client_throws connects = Exit 1)
   \<and> (startup MONGO_URI client_throws connects = Listening
        \<longleftrightarrow> (\<exists>u. MONGO_URI = Some u \<and> prefix ''mongodb'' u \<and> \<not> client_throws u \<and> connects u))
   \<and> ((\<forall>u. \<not> prefix ''mongodb://'' u \<and> \<not> prefix ''mongodb+srv://'' u
             \<longrightarrow> client_throws u \<or> \<not> connects u)
        \<and> MONGO_URI = Some uri \<and> \<not> prefix ''mongodb://'' uri \<and> \<not> prefix ''mongodb+srv://'' uri
        \<longrightarrow> startup MONGO_URI client_throws connects \<noteq> Listening)"
  by (cases MONGO_URI) (auto simp: startup_def connectDB_def)

theorem startup_fatal_witness:
  "startup None (\<lambda>u. False) (\<lambda>u. True) = Exit 1
   \<and> startup (Some ''postgres://db'') (\<lambda>u. False) (\<lambda>u. True) = Exit 1
   \<and> startup (Some ''mongodb://db'') (\<lambda>u. True) (\<lambda>u. True) = Uncaught MongoError
   \<and> startup (Some ''mongodb://db'') (\<lambda>u. False) (\<lambda>u. False) = Exit 1
   \<and> startup (Some ''mongodb://db'') (\<lambda>u. False) (\<lambda>u. True) = Listening
   \<and> startup (Some ''mongodbx://db'')
        (\<lambda>u. \<not> prefix ''mongodb://'' u \<and> \<not> prefix ''mongodb+srv://'' u) (\<lambda>u. True) \<noteq> Listening"
proof -
  have p: "prefix ''mongodb'' ''mongodb://db''" "\<not> prefix ''mongodb'' ''postgres://db''"
    "\<not> prefix ''mongodb://'' ''mongodbx://db''" "\<not> prefix ''mongodb+srv://'' ''mongodbx://db''"
    by simp_all
  from startup_fatal [where MONGO_URI = None and client_throws = "\<lambda>u. False"
      and connects = "\<lambda>u. True"]
  have 1: "startup None (\<lambda>u. False) (\<lambda>u. True) = Exit 1"
    by simp
  from startup_fatal [where MONGO_URI = "Some ''postgres://db''" and uri = "''postgres://db''"
      and client_throws = "\<lambda>u. False" and connects = "\<lambda>u. True"] p
  have 2: "startup (Some ''postgres://db'') (\<lambda>u. False) (\<lambda>u. True) = Exit 1"
    by blast
  from startup_fatal [where MONGO_URI = "Some ''mongodb://db''" and uri = "''mongodb://db''"
      and client_throws = "\<lambda>u. True" and connects = "\<lambda>u. True"] p
  have 3: "startup (Some ''mongodb://db'') (\<lambda>u. True) (\<lambda>u. True) = Uncaught MongoError"
    by blast
  from startup_fatal [where MONGO_URI = "Some ''mongodb://db''" and uri = "''mongodb://db''"
      and client_throws = "\<lambda>u. False" and connects = "\<lambda>u. False"] p
  have 4: "startup (Some ''mongodb://db'') (\<lambda>u. False) (\<lambda>u. False) = Exit 1"
    by blast
  from startup_fatal [where MONGO_URI = "Some ''mongodb://db''" and uri = "''mongodb://db''"
      and client_throws = "\<lambda>u. False" and connects = "\<lambda>u. True"] p
  have 5: "startup (Some ''mongodb://db'') (\<lambda>u. False) (\<lambda>u. True) = Listening"
    by blast
  from startup_fatal [where MONGO_URI = "Some ''mongodbx://db''" and uri = "''mongodbx://db''"
      and client_throws = "\<lambda>u. \<not> prefix ''mongodb://'' u \<and> \<not> prefix ''mongodb+srv://'' u"
      and connects = "\<lambda>u. True"] p
  have 6: "startup (Some ''mongodbx://db'')
        (\<lambda>u. \<not> prefix ''mongodb://'' u \<and> \<not> prefix ''mongodb+srv://'' u) (\<lambda>u. True) \<noteq> Listening"
    by blast
  from 1 2 3 4 5 6 show ?thesis by blast
qed

section \<open>The dashboard handler reads only, and fails as a whole\<close>

lemma forEach_Inl:
  "(\<exists>e. forEach f xs = Inl e) \<longleftrightarrow> (\<exists>x \<in> set xs. \<exists>e. f x = Inl e)"
  by (induction xs) (auto split: sum.splits)

lemma forEach_Inr:
  "forEach f xs = Inr ys \<Longrightarrow> map f xs = map Inr ys"
  by (induction xs arbitrary: ys) (auto split: sum.splits)

lemma attach_formatted_Inl:
  "(\<exists>e. attach_formatted p = Inl e) \<longleftrightarrow> (\<exists>e. formatInTimeZone (timestamp p) = Inl e)"
  by (cases "formatInTimeZone (timestamp p)") (simp_all add: attach_formatted_def)

lemma format_region_Inl:
  "(\<exists>e. format_region r = Inl e)
     \<longleftrightarrow> (\<exists>p \<in> set (provinces r). \<exists>e. formatInTimeZone (timestamp p) = Inl e)"
proof -
  have "(\<exists>e. format_region r = Inl e) \<longleftrightarrow> (\<exists>e. forEach attach_formatted (provinces r) = Inl e)"
    by (cases "forEach attach_formatted (provinces r)") (simp_all add: format_region_def)
  then show ?thesis
    by (simp add: forEach_Inl attach_formatted_Inl)
qed


lemma build_dashboard_Inl:
  "(\<exists>e. build_dashboard w q db = Inl e) \<longleftrightarrow>
     (\<exists>e. aggregate w (searchQuery q) (records db) = Inl e)
     \<or> (\<exists>views. aggregate w (searchQuery q) (records db) = Inr views
           \<and> (\<exists>v \<in> set views. \<exists>p \<in> set (provinces v). \<exists>e. formatInTimeZone (timestamp p) = Inl e))
     \<or> (\<exists>e. sensorData w (sensors db) = Inl e)
     \<or> (\<exists>rs. sensorData w (sensors db) = Inr rs
           \<and> (\<exists>r \<in> set rs. \<exists>e. formatInTimeZone (timestamp r) = Inl e))"
proof (cases "aggregate w (searchQuery q) (records db)")
  case (Inl e)
  then show ?thesis by (simp add: build_dashboard_def)
next
  case agg: (Inr views)
  show ?thesis
  proof (cases "forEach format_region views")
    case (Inl e)
    then have "\<exists>v \<in> set views. \<exists>p \<in> set (provinces v). \<exists>e. formatInTimeZone (timestamp p) = Inl e"
      using forEach_Inl [of format_region views] by (simp add: format_region_Inl)
    with agg Inl show ?thesis
      by (simp add: build_dashboard_def)
  next
    case fmt: (Inr regions')
    then have ok: "\<not> (\<exists>v \<in> set views. \<exists>p \<in> set (provinces v). \<exists>e. formatInTimeZone (timestamp p) = Inl e)"
      using forEach_Inl [of format_region views] by (simp add: format_region_Inl)
    show ?thesis
    proof (cases "sensorData w (sensors db)")
      case (Inl e)
      with agg fmt show ?thesis
        by (simp add: build_dashboard_def)
    next
      case find: (Inr rs)
      show ?thesis
      proof (cases "forEach attach_formatted rs")
        case (Inl e)
        then have "\<exists>r \<in> set rs. \<exists>e. formatInTimeZone (timestamp r) = Inl e"
          using forEach_Inl [of attach_formatted rs] by (simp add: attach_formatted_Inl)
        with agg fmt find Inl show ?thesis
          by (simp add: build_dashboard_def)
      next
        case (Inr readings')
        then have "\<not> (\<exists>r \<in> set rs. \<exists>e. formatInTimeZone (timestamp r) = Inl e)"
          using forEach_Inl [of attach_formatted rs] by (simp add: attach_formatted_Inl)
        with agg fmt find Inr ok show ?thesis
          by (simp add: build_dashboard_def)
      qed
    qed
  qed
qed

lemma build_dashboard_Inr:
  assumes "build_dashboard w q db = Inr v"
  shows "\<exists>views rs. aggregate w (searchQuery q) (records db) = Inr views
           \<and> sensorData w (sensors db) = Inr rs
           \<and> map format_region views = map Inr (v_regions v)
           \<and> map attach_formatted rs = map Inr (v_sensorData v)
           \<and> v_query v = searchQuery q \<and> v_locale v = ''th-TH''"
  using assms
  by (auto simp: build_dashboard_def dest!: forEach_Inr split: sum.splits)

text \<open>
  C9. \<^verbatim>\<open>GET /\<close> leaves both collections as they were. When the aggregation fails, when
  a timestamp of a record or of a reading cannot be formatted, or when the sensor query
  fails, the answer is 500 with the message of the handler. The answer is either that or
  a dashboard, and a dashboard holds every region the aggregation returned and every
  reading the sensor query returned, each with its formatted timestamp.
\<close>

theorem get_root_reads_only:
  "snd (get_root w q db) = db
   \<and> (((\<exists>e. aggregate w (searchQuery q) (records db) = Inl e)
        \<or> (\<exists>views. aggregate w (searchQuery q) (records db) = Inr views
              \<and> (\<exists>v \<in> set views. \<exists>p \<in> set (provinces v). \<exists>e. formatInTimeZone (timestamp p) = Inl e))
        \<or> (\<exists>e. sensorData w (sensors db) = Inl e)
        \<or> (\<exists>rs. sensorData w (sensors db) = Inr rs
              \<and> (\<exists>r \<in> set rs. \<exists>e. formatInTimeZone (timestamp r) = Inl e)))
       \<longrightarrow> fst (get_root w q db) = Send 500 error_message)
   \<and> (\<forall>v. fst (get_root w q db) = Render v \<longrightarrow>
         (\<exists>views rs. aggregate w (searchQuery q) (records db) = Inr views
            \<and> sensorData w (sensors db) = Inr rs
            \<and> map format_region views = map Inr (v_regions v)
            \<and> map attach_formatted rs = map Inr (v_sensorData v)
            \<and> v_query v = searchQuery q \<and> v_locale v = ''th-TH''))
   \<and> (fst (get_root w q db) = Send 500 error_message \<or> (\<exists>v. fst (get_root w q db) = Render v))"
proof (cases "build_dashboard w q db")
  case (Inl e)
  then show ?thesis by (simp add: get_root_def)
next
  case (Inr v)
  then have "\<not> (\<exists>e. build_dashboard w q db = Inl e)" by simp
  then have ok: "\<not> ((\<exists>e. aggregate w (searchQuery q) (records db) = Inl e)
        \<or> (\<exists>views. aggregate w (searchQuery q) (records db) = Inr views
              \<and> (\<exists>v \<in> set views. \<exists>p \<in> set (provinces v). \<exists>e. formatInTimeZone (timestamp p) = Inl e))
        \<or> (\<exists>e. sensorData w (sensors db) = Inl e)
        \<or> (\<exists>rs. sensorData w (sensors db) = Inr rs
              \<and> (\<exists>r \<in> set rs. \<exists>e. formatInTimeZone (timestamp r) = Inl e)))"
    unfolding build_dashboard_Inl .
  from build_dashboard_Inr [OF Inr] ok Inr show ?thesis
    by (simp add: get_root_def)
qed

theorem get_root_reads_only_witness:
  "snd (get_root (sample_world\<lparr>aggregate_fails := True\<rparr>) (Some ''ang'') sample_storage)
     = sample_storage
   \<and> aggregate (sample_world\<lparr>aggregate_fails := True\<rparr>) (searchQuery (Some ''ang''))
        (records sample_storage) = Inl MongoError
   \<and> fst (get_root (sample_world\<lparr>aggregate_fails := True\<rparr>) (Some ''ang'') sample_storage)
     = Send 500 error_message
   \<and> get_root sample_world None small_storage
     = (Render (View
          [\<lparr>regionName = ''Central'',
            provinces = [(weather ''Bangkok'' ''Central'' 1709632800000, ''5/3/2024 17:00:00'')]\<rparr>]
          [(reading 0, ''1/1/1970 07:00:00'')] [] ''th-TH''),
        small_storage)
   \<and> (\<exists>views rs. aggregate sample_world (searchQuery None) (records small_storage) = Inr views
         \<and> sensorData sample_world (sensors small_storage) = Inr rs
         \<and> map format_region views
             = map Inr [\<lparr>regionName = ''Central'',
                 provinces = [(weather ''Bangkok'' ''Central'' 1709632800000, ''5/3/2024 17:00:00'')]\<rparr>]
         \<and> map attach_formatted rs = map Inr [(reading 0, ''1/1/1970 07:00:00'')])"
proof -
  let ?v = "View
          [\<lparr>regionName = ''Central'',
            provinces = [(weather ''Bangkok'' ''Central'' 1709632800000, ''5/3/2024 17:00:00'')]\<rparr>]
          [(reading 0, ''1/1/1970 07:00:00'')] [] ''th-TH''"
  have h: "aggregate (sample_world\<lparr>aggregate_fails := True\<rparr>) (searchQuery (Some ''ang''))
        (records sample_storage) = Inl MongoError"
    by (simp add: aggregate_def)
  have r: "get_root sample_world None small_storage = (Render ?v, small_storage)"
    by code_simp
  then have f: "fst (get_root sample_world None small_storage) = Render ?v"
    by simp
  from get_root_reads_only
    [of "sample_world\<lparr>aggregate_fails := True\<rparr>" "Some ''ang''" sample_storage] h
  have 1: "snd (get_root (sample_world\<lparr>aggregate_fails := True\<rparr>) (Some ''ang'') sample_storage)
     = sample_storage
   \<and> fst (get_root (sample_world\<lparr>aggregate_fails := True\<rparr>) (Some ''ang'') sample_storage)
     = Send 500 error_message"
    by blast
  from get_root_reads_only [of sample_world None small_storage] f
  have 2: "\<exists>views rs. aggregate sample_world (searchQuery None) (records small_storage) = Inr views
         \<and> sensorData sample_world (sensors small_storage) = Inr rs
         \<and> map format_region views = map Inr (v_regions ?v)
         \<and> map attach_formatted rs = map Inr (v_sensorData ?v)"
    by blast
  from 1 2 h r show ?thesis by simp
qed

section \<open>The formatted timestamp\<close>

text \<open>
  The calendar conversion: the ranges of its intermediate values, its inverse, and the
  years reached from the epoch to the end of year 9999.
\<close>

lemma doy_fields:
  fixes doy :: int
  assumes "0 \<le> doy" "doy \<le> 365"
  defines "mp \<equiv> (5 * doy + 2) div 153"
  shows "0 \<le> mp" "mp \<le> 11" "1 \<le> doy - (153 * mp + 2) div 5 + 1" "doy - (153 * mp + 2) div 5 + 1 \<le> 31"
    "mp \<le> 9 \<longleftrightarrow> doy \<le> 305"
  using assms by (simp_all; linarith)+

lemma doe_fields:
  fixes doe :: int
  assumes "0 \<le> doe" "doe < 146097"
  defines "c \<equiv> min 3 (doe div 36524)"
  defines "doc \<equiv> doe - 36524 * c"
  defines "q \<equiv> doc div 1461"
  defines "doq \<equiv> doc mod 1461"
  defines "a \<equiv> min 3 (doq div 365)"
  defines "doy \<equiv> doq - 365 * a"
  shows "0 \<le> c" "c \<le> 3" "0 \<le> q" "q \<le> 24" "0 \<le> a" "a \<le> 3" "0 \<le> doy" "doy \<le> 365"
    "doe = 36524 * c + 1461 * q + 365 * a + doy"
proof -
  show c: "0 \<le> c" "c \<le> 3"
    using assms(1,2) unfolding c_def by linarith+
  have doc: "0 \<le> doc" "doc \<le> 36524"
    using assms(1,2) unfolding doc_def c_def by linarith+
  show q: "0 \<le> q" "q \<le> 24"
    using doc unfolding q_def by linarith+
  have doq: "0 \<le> doq" "doq \<le> 1460"
    unfolding doq_def by simp_all
  show a: "0 \<le> a" "a \<le> 3"
    using doq unfolding a_def by linarith+
  show "0 \<le> doy" "doy \<le> 365"
    using doq unfolding doy_def a_def by linarith+
  have "doc = 1461 * q + doq"
    unfolding q_def doq_def by simp
  then show "doe = 36524 * c + 1461 * q + 365 * a + doy"
    unfolding doy_def doc_def by linarith
qed

lemma civil_from_days_fields:
  obtains era doe c q a doy mp where
    "z + 719468 = 146097 * era + doe" and "0 \<le> doe" and "doe < 146097"
    and "c = min 3 (doe div 36524)" and "q = (doe - 36524 * c) div 1461"
    and "a = min 3 ((doe - 36524 * c) mod 1461 div 365)"
    and "doy = (doe - 36524 * c) mod 1461 - 365 * a"
    and "mp = (5 * doy + 2) div 153"
    and "doe = 36524 * c + 1461 * q + 365 * a + doy"
    and "0 \<le> c" and "c \<le> 3" and "0 \<le> q" and "q \<le> 24" and "0 \<le> a" and "a \<le> 3"
    and "0 \<le> doy" and "doy \<le> 365" and "0 \<le> mp" and "mp \<le> 11"
    and "mp \<le> 9 \<longleftrightarrow> doy \<le> 305"
    and "1 \<le> doy - (153 * mp + 2) div 5 + 1" and "doy - (153 * mp + 2) div 5 + 1 \<le> 31"
    and "civil_from_days z =
           (400 * era + 100 * c + 4 * q + a + (if mp < 10 then 0 else 1),
            (if mp < 10 then mp + 3 else mp - 9),
            doy - (153 * mp + 2) div 5 + 1)"
proof -
  define doe where "doe = (z + 719468) mod 146097"
  define era where "era = (z + 719468) div 146097"
  define c where "c = min 3 (doe div 36524)"
  define doc where "doc = doe - 36524 * c"
  define q where "q = doc div 1461"
  define doq where "doq = doc mod 1461"
  define a where "a = min 3 (doq div 365)"
  define doy where "doy = doq - 365 * a"
  define mp where "mp = (5 * doy + 2) div 153"
  define d where "d = doy - (153 * mp + 2) div 5 + 1"
  define m where "m = (if mp < 10 then mp + 3 else mp - 9)"
  define y where "y = 400 * era + 100 * c + 4 * q + a + (if m \<le> 2 then 1 else 0)"
  have doe: "0 \<le> doe" "doe < 146097" by (simp_all add: doe_def)
  note f = doe_fields [OF doe, folded c_def, folded doc_def, folded q_def doq_def,
      folded a_def, folded doy_def]
  note g = doy_fields [OF f(7,8), folded mp_def]
  have "civil_from_days z = (y, m, d)"
    by (simp only: civil_from_days_def Let_def y_def m_def d_def mp_def doy_def a_def doq_def
        q_def doc_def c_def doe_def era_def)
  moreover have "(if m \<le> 2 then 1 else 0) = (if mp < 10 then 0 else (1::int))"
    using g(1,2) by (simp add: m_def)
  ultimately have civ: "civil_from_days z =
           (400 * era + 100 * c + 4 * q + a + (if mp < 10 then 0 else 1),
            (if mp < 10 then mp + 3 else mp - 9),
            doy - (153 * mp + 2) div 5 + 1)"
    by (simp add: y_def m_def d_def)
  have z: "z + 719468 = 146097 * era + doe"
    by (simp add: era_def doe_def)
  show thesis
    by (rule that [OF z doe c_def q_def [unfolded doc_def] a_def [unfolded doq_def doc_def]
          doy_def [unfolded doq_def doc_def] mp_def f(9) f(1-8) g(1,2,5,3,4) civ])
qed

lemma civil_roundtrip:
  "(case civil_from_days z of (y, m, d) \<Rightarrow> days_from_civil y m d) = z"
proof -
  obtain era doe c q a doy mp where
    z: "z + 719468 = 146097 * era + doe"
    and doe: "doe = 36524 * c + 1461 * q + 365 * a + doy"
    and b: "0 \<le> c" "c \<le> 3" "0 \<le> q" "q \<le> 24" "0 \<le> a" "a \<le> 3"
    and mp: "0 \<le> mp" "mp \<le> 11"
    and civ: "civil_from_days z =
           (400 * era + 100 * c + 4 * q + a + (if mp < 10 then 0 else 1),
            (if mp < 10 then mp + 3 else mp - 9),
            doy - (153 * mp + 2) div 5 + 1)"
    by (rule civil_from_days_fields [of z]) blast
  define yoe where "yoe = 100 * c + 4 * q + a"
  have yoe: "0 \<le> yoe" "yoe < 400"
    using b unfolding yoe_def by linarith+
  have d4: "yoe div 4 = 25 * c + q"
    using b(5,6) unfolding yoe_def by linarith
  have d100: "yoe div 100 = c"
    using b(3-6) unfolding yoe_def by linarith
  have era': "(400 * era + yoe) div 400 = era" and yoe': "(400 * era + yoe) mod 400 = yoe"
    and ym: "yoe mod 400 = yoe"
    using yoe by (simp_all add: div_pos_pos_trivial)
  have "days_from_civil (400 * era + yoe + (if mp < 10 then 0 else 1))
          (if mp < 10 then mp + 3 else mp - 9) (doy - (153 * mp + 2) div 5 + 1)
        = era * 146097 + (yoe * 365 + yoe div 4 - yoe div 100 + doy) - 719468"
  proof (cases "mp < 10")
    case True
    with mp show ?thesis
      by (simp add: days_from_civil_def Let_def era' yoe' ym add.commute [of 2])
  next
    case False
    with mp show ?thesis
      by (simp add: days_from_civil_def Let_def era' yoe' ym add.commute [of 2])
  qed
  also have "\<dots> = era * 146097 + doe - 719468"
    unfolding d4 d100 by (simp add: doe yoe_def)
  also have "\<dots> = z"
    using z by simp
  finally show ?thesis
    by (cases "mp < 10") (simp_all add: civ yoe_def add.assoc)
qed

lemma civil_year_lower:
  assumes "0 \<le> z"
  shows "1970 \<le> fst (civil_from_days z)"
proof -
  obtain era doe c q a doy mp where
    z: "z + 719468 = 146097 * era + doe" and doe_b: "0 \<le> doe" "doe < 146097"
    and c: "c = min 3 (doe div 36524)" and q: "q = (doe - 36524 * c) div 1461"
    and doe: "doe = 36524 * c + 1461 * q + 365 * a + doy"
    and b: "0 \<le> c" "c \<le> 3" "0 \<le> q" "q \<le> 24" "0 \<le> a" "a \<le> 3"
    and doy: "0 \<le> doy" "doy \<le> 365"
    and mp9: "mp \<le> 9 \<longleftrightarrow> doy \<le> 305"
    and civ: "civil_from_days z =
           (400 * era + 100 * c + 4 * q + a + (if mp < 10 then 0 else 1),
            (if mp < 10 then mp + 3 else mp - 9),
            doy - (153 * mp + 2) div 5 + 1)"
    by (rule civil_from_days_fields [of z]) blast
  have era: "4 \<le> era" using assms z doe_b by linarith
  have "1970 \<le> 400 * era + 100 * c + 4 * q + a + (if mp < 10 then 0 else 1)"
  proof (cases "5 \<le> era")
    case True
    with b show ?thesis by (simp split: if_splits) 
  next
    case False
    with era have e4: "era = 4" by simp
    with z assms have doe_lb: "135080 \<le> doe" by linarith
    have c3: "c = 3" using doe_lb unfolding c by linarith
    have q17: "17 \<le> q" using doe_lb unfolding q c3 by linarith
    have "1969 \<le> 100 * c + 4 * q + a + 1600 \<and> (100 * c + 4 * q + a + 1600 = 1969 \<longrightarrow> 306 \<le> doy)"
      using doe doe_lb c3 q17 b doy by linarith
    then show ?thesis using mp9 e4 by (simp split: if_splits) linarith
  qed
  then show ?thesis by (simp add: civ)
qed

lemma civil_year_upper:
  assumes "z < 2932897"
  shows "fst (civil_from_days z) \<le> 9999"
proof -
  obtain era doe c q a doy mp where
    z: "z + 719468 = 146097 * era + doe" and doe_b: "0 \<le> doe" "doe < 146097"
    and doe: "doe = 36524 * c + 1461 * q + 365 * a + doy"
    and b: "0 \<le> c" "c \<le> 3" "0 \<le> q" "q \<le> 24" "0 \<le> a" "a \<le> 3"
    and doy: "0 \<le> doy" "doy \<le> 365"
    and mp9: "mp \<le> 9 \<longleftrightarrow> doy \<le> 305"
    and civ: "civil_from_days z =
           (400 * era + 100 * c + 4 * q + a + (if mp < 10 then 0 else 1),
            (if mp < 10 then mp + 3 else mp - 9),
            doy - (153 * mp + 2) div 5 + 1)"
    by (rule civil_from_days_fields [of z]) blast
  have era: "era \<le> 24" using assms z doe_b by linarith
  have "400 * era + 100 * c + 4 * q + a + (if mp < 10 then 0 else 1) \<le> 9999"
  proof (cases "era \<le> 23")
    case True
    with b show ?thesis by (simp split: if_splits)
  next
    case False
    with era have e24: "era = 24" by simp
    with z assms have doe_ub: "doe < 146037" by linarith
    have "100 * c + 4 * q + a \<le> 399 \<and> (100 * c + 4 * q + a = 399 \<longrightarrow> doy \<le> 305)"
      using doe doe_ub b doy by linarith
    then show ?thesis using mp9 e24 by (simp split: if_splits) linarith
  qed
  then show ?thesis by (simp add: civ)
qed

lemma dec_lt10: "n < 10 \<Longrightarrow> dec n = [digit n]"
  by (subst dec.simps) simp

lemma dec_ge10: "10 \<le> n \<Longrightarrow> dec n = dec (n div 10) @ [digit (n mod 10)]"
  by (subst dec.simps) simp

lemma length_dec_1_2: "n < 100 \<Longrightarrow> length (dec n) = (if n < 10 then 1 else 2)"
  by (simp add: dec_lt10 dec_ge10)

lemma length_dec_4: "1000 \<le> n \<Longrightarrow> n < 10000 \<Longrightarrow> length (dec n) = 4"
proof -
  assume n: "1000 \<le> n" "n < 10000"
  have "dec n = dec (n div 10) @ [digit (n mod 10)]"
    using n by (simp add: dec_ge10)
  moreover have "dec (n div 10) = dec (n div 10 div 10) @ [digit (n div 10 mod 10)]"
    using n by (simp add: dec_ge10)
  moreover have "dec (n div 10 div 10) = dec (n div 10 div 10 div 10) @ [digit (n div 10 div 10 mod 10)]"
    using n by (simp add: dec_ge10)
  moreover have "dec (n div 10 div 10 div 10) = [digit (n div 10 div 10 div 10)]"
    using n by (simp add: dec_lt10)
  ultimately show ?thesis by simp
qed

lemma digit_0: "digit 0 = CHR ''0''"
  by code_simp

lemma two_digits: "n < 100 \<Longrightarrow> addLeadingZeros n 2 = [digit (n div 10), digit (n mod 10)]"
  by (cases "n < 10") (simp_all add: addLeadingZeros_def dec_lt10 dec_ge10 digit_0 [symmetric])

lemma four_digits: "1000 \<le> n \<Longrightarrow> n < 10000 \<Longrightarrow> addLeadingZeros n 4 = dec n"
  by (simp add: addLeadingZeros_def length_dec_4)

lemma time_of_day:
  fixes sod :: int
  assumes "0 \<le> sod" "sod < 86400"
  shows "0 \<le> sod div 3600" "sod div 3600 < 24" "0 \<le> sod mod 3600 div 60" "sod mod 3600 div 60 < 60"
    "0 \<le> sod mod 60" "sod mod 60 < 60"
    "(sod div 3600) * 3600 + (sod mod 3600 div 60) * 60 + sod mod 60 = sod"
proof -
  show "0 \<le> sod div 3600" "sod div 3600 < 24"
    using assms by linarith+
  show "0 \<le> sod mod 3600 div 60" "sod mod 3600 div 60 < 60"
    by (simp_all add: div_less_iff_less_mult)
  show "0 \<le> sod mod 60" "sod mod 60 < 60"
    by simp_all
  have "sod mod 3600 mod 60 = sod mod 60"
    by (simp add: mod_mod_cancel)
  then have "sod mod 3600 div 60 * 60 + sod mod 60 = sod mod 3600"
    by (metis div_mult_mod_eq)
  moreover have "sod div 3600 * 3600 + sod mod 3600 = sod"
    by simp
  ultimately show "(sod div 3600) * 3600 + (sod mod 3600 div 60) * 60 + sod mod 60 = sod"
    by linarith
qed


text \<open>
  The calendar: the days before a year grow by the length of the year, the closed form
  counts the days as the calendar does, and the two conversions are inverse to each other
  on the dates that exist.
\<close>

lemma div_step:
  fixes y k :: int
  assumes "0 < k"
  shows "y div k = (y - 1) div k + (if y mod k = 0 then 1 else 0)"
proof (cases "y mod k = 0")
  case True
  have "y - 1 = k * (y div k - 1) + (k - 1)"
    using True by (simp add: algebra_simps) (metis mult.commute mult_div_mod_eq add.right_neutral)
  from int_div_pos_eq [OF this] assms have "(y - 1) div k = y div k - 1" by simp
  with True show ?thesis by simp
next
  case False
  have "0 \<le> y mod k" "y mod k < k" using assms by simp_all
  with False have r: "0 \<le> y mod k - 1" "y mod k - 1 < k" by linarith+
  have "y - 1 = k * (y div k) + (y mod k - 1)"
    by simp
  from int_div_pos_eq [OF this r] False show ?thesis by simp
qed

lemma days_before_year_next:
  "days_before_year (y + 1) = days_before_year y + (if leap_year y then 366 else 365)"
proof -
  define p4 where "p4 \<longleftrightarrow> y mod 4 = 0"
  define p100 where "p100 \<longleftrightarrow> y mod 100 = 0"
  define p400 where "p400 \<longleftrightarrow> y mod 400 = 0"
  define b4 :: int where "b4 = (if p4 then 1 else 0)"
  define b100 :: int where "b100 = (if p100 then 1 else 0)"
  define b400 :: int where "b400 = (if p400 then 1 else 0)"
  have "y mod 100 = 0" if "y mod 400 = 0"
  proof -
    have "y mod 400 mod 100 = y mod 100" by (rule mod_mod_cancel) simp
    with that show ?thesis by simp
  qed
  then have "p400 \<longrightarrow> p100"
    unfolding p400_def p100_def by blast
  moreover have "y mod 4 = 0" if "y mod 100 = 0"
  proof -
    have "y mod 100 mod 4 = y mod 4" by (rule mod_mod_cancel) simp
    with that show ?thesis by simp
  qed
  then have "p100 \<longrightarrow> p4"
    unfolding p100_def p4_def by blast
  moreover have "leap_year y \<longleftrightarrow> p4 \<and> (\<not> p100 \<or> p400)"
    by (simp only: leap_year_def p4_def p100_def p400_def)
  ultimately have leap: "b4 - b100 + b400 = (if leap_year y then 1 else 0)"
    unfolding b4_def b100_def b400_def by (cases p4; cases p100; cases p400) simp_all
  have s: "y div 4 = (y - 1) div 4 + b4" "y div 100 = (y - 1) div 100 + b100"
    "y div 400 = (y - 1) div 400 + b400"
    unfolding b4_def b100_def b400_def p4_def p100_def p400_def
    by (rule div_step, simp)+
  have "days_before_year (y + 1) = 365 * y + y div 4 - y div 100 + y div 400"
    by (simp add: days_before_year_def)
  also have "\<dots> = 365 * y + ((y - 1) div 4 + b4) - ((y - 1) div 100 + b100)
      + ((y - 1) div 400 + b400)"
    by (simp only: s)
  also have "\<dots> = days_before_year y + 365 + (b4 - b100 + b400)"
    by (simp add: days_before_year_def)
  finally show ?thesis
    unfolding leap by simp
qed

lemma march_year_days:
  "(n div 400) * 146097 + ((n mod 400) * 365 + (n mod 400) div 4 - (n mod 400) div 100)
     = days_before_year (n + 1)"
proof -
  define e where "e = n div 400"
  define r where "r = n mod 400"
  have n: "n = 400 * e + r"
    by (simp add: e_def r_def)
  have r4: "0 \<le> r mod 4" "r mod 4 < 4" and r100: "0 \<le> r mod 100" "r mod 100 < 100"
    by simp_all
  have "n = 4 * (100 * e + r div 4) + r mod 4"
    using n mult_div_mod_eq [of 4 r] by (simp only: distrib_left)
  from int_div_pos_eq [OF this r4] have d4: "n div 4 = 100 * e + r div 4" .
  have "n = 100 * (4 * e + r div 100) + r mod 100"
    using n mult_div_mod_eq [of 100 r] by (simp only: distrib_left)
  from int_div_pos_eq [OF this r100] have d100: "n div 100 = 4 * e + r div 100" .
  have "days_before_year (n + 1) = 365 * n + n div 4 - n div 100 + n div 400"
    by (simp add: days_before_year_def)
  also have "\<dots> = 365 * (400 * e + r) + (100 * e + r div 4) - (4 * e + r div 100) + e"
    unfolding d4 d100 e_def [symmetric] using n by simp
  finally show ?thesis
    unfolding e_def [symmetric] r_def [symmetric] by (simp add: algebra_simps)
qed

lemma days_before_month_values:
  "days_before_month y 1 = 0"
  "days_before_month y 2 = 31"
  "days_before_month y 3 = 59 + (if leap_year y then 1 else 0)"
  "days_before_month y 4 = 90 + (if leap_year y then 1 else 0)"
  "days_before_month y 5 = 120 + (if leap_year y then 1 else 0)"
  "days_before_month y 6 = 151 + (if leap_year y then 1 else 0)"
  "days_before_month y 7 = 181 + (if leap_year y then 1 else 0)"
  "days_before_month y 8 = 212 + (if leap_year y then 1 else 0)"
  "days_before_month y 9 = 243 + (if leap_year y then 1 else 0)"
  "days_before_month y 10 = 273 + (if leap_year y then 1 else 0)"
  "days_before_month y 11 = 304 + (if leap_year y then 1 else 0)"
  "days_before_month y 12 = 334 + (if leap_year y then 1 else 0)"
  by (simp_all add: days_before_month_def days_in_month_def upto_rec1)

lemma month_cases:
  fixes m :: int
  assumes "1 \<le> m" "m \<le> 12"
  shows "m = 1 \<or> m = 2 \<or> m = 3 \<or> m = 4 \<or> m = 5 \<or> m = 6 \<or> m = 7 \<or> m = 8 \<or> m = 9
    \<or> m = 10 \<or> m = 11 \<or> m = 12"
  using assms by arith

lemma days_from_civil_alt:
  "days_from_civil y m d =
     days_before_year ((if m \<le> 2 then y - 1 else y) + 1)
     + ((153 * (if m > 2 then m - 3 else m + 9) + 2) div 5 + d - 1) - 719468"
proof -
  define n where "n = (if m \<le> 2 then y - 1 else y)"
  define doy where "doy = (153 * (if m > 2 then m - 3 else m + 9) + 2) div 5 + d - 1"
  have "days_from_civil y m d =
      (n div 400) * 146097 + ((n mod 400) * 365 + (n mod 400) div 4 - (n mod 400) div 100 + doy)
        - 719468"
    by (simp only: days_from_civil_def Let_def n_def doy_def)
  also have "\<dots> = (n div 400) * 146097
      + ((n mod 400) * 365 + (n mod 400) div 4 - (n mod 400) div 100) + doy - 719468"
    by simp
  also have "\<dots> = days_before_year (n + 1) + doy - 719468"
    by (simp only: march_year_days)
  finally show ?thesis
    by (simp only: n_def doy_def)
qed

lemma days_before_year_1970: "days_before_year 1970 = 719162"
  by (simp add: days_before_year_def)

lemma days_from_civil_day_number:
  assumes "1 \<le> m" "m \<le> 12"
  shows "days_from_civil y m d = day_number y m d"
  using month_cases [OF assms]
  by (elim disjE)
    (simp_all add: days_from_civil_alt day_number_def days_before_year_1970
      days_before_month_values days_before_year_next)

text \<open>The start of each month in the year that runs from March.\<close>

lemma month_of_doy:
  fixes mp d :: int
  assumes "0 \<le> mp" "mp \<le> 11" "1 \<le> d"
      and "d \<le> (153 * (mp + 1) + 2) div 5 - (153 * mp + 2) div 5"
  shows "(5 * ((153 * mp + 2) div 5 + d - 1) + 2) div 153 = mp"
proof -
  from assms(1,2) have "mp = 0 \<or> mp = 1 \<or> mp = 2 \<or> mp = 3 \<or> mp = 4 \<or> mp = 5 \<or> mp = 6
      \<or> mp = 7 \<or> mp = 8 \<or> mp = 9 \<or> mp = 10 \<or> mp = 11"
    by arith
  then show ?thesis
    using assms(3,4) by (elim disjE; simp; linarith)
qed

lemma march_month_length:
  assumes "1 \<le> m" "m \<le> 12"
  shows "days_in_month y m
     \<le> (153 * ((if m > 2 then m - 3 else m + 9) + 1) + 2) div 5
        - (153 * (if m > 2 then m - 3 else m + 9) + 2) div 5"
    and "m \<noteq> 2 \<Longrightarrow> (153 * (if m > 2 then m - 3 else m + 9) + 2) div 5 + days_in_month y m \<le> 337"
  using month_cases [OF assms] by (elim disjE; simp add: days_in_month_def)+

lemma year_of_era_digits:
  fixes r :: int
  assumes "0 \<le> r" "r < 400"
  shows "r = 100 * (r div 100) + 4 * (r mod 100 div 4) + r mod 4"
    and "0 \<le> r div 100" "r div 100 \<le> 3" "0 \<le> r mod 100 div 4" "r mod 100 div 4 \<le> 24"
    and "0 \<le> r mod 4" "r mod 4 \<le> 3"
    and "r div 4 = 25 * (r div 100) + r mod 100 div 4"
proof -
  have m4: "r mod 100 mod 4 = r mod 4"
    by (rule mod_mod_cancel) simp
  have "r mod 100 = 4 * (r mod 100 div 4) + r mod 100 mod 4"
    by simp
  then have low: "r mod 100 = 4 * (r mod 100 div 4) + r mod 4"
    by (simp only: m4)
  have "r = 100 * (r div 100) + r mod 100"
    by simp
  with low show split: "r = 100 * (r div 100) + 4 * (r mod 100 div 4) + r mod 4"
    by linarith
  show "0 \<le> r div 100" "r div 100 \<le> 3"
    using assms by linarith+
  have "0 \<le> r mod 100" "r mod 100 < 100"
    by simp_all
  then show "0 \<le> r mod 100 div 4" "r mod 100 div 4 \<le> 24"
    by linarith+
  show a: "0 \<le> r mod 4" "r mod 4 \<le> 3"
    by simp_all
  have "r = 4 * (25 * (r div 100) + r mod 100 div 4) + r mod 4"
    using split by (simp add: algebra_simps)
  from int_div_pos_eq [OF this] show "r div 4 = 25 * (r div 100) + r mod 100 div 4"
    by simp
qed

lemma civil_from_days_from_civil:
  assumes "valid_date y m d"
  shows "civil_from_days (days_from_civil y m d) = (y, m, d)"
proof -
  define n where "n = (if m \<le> 2 then y - 1 else y)"
  define E where "E = n div 400"
  define r where "r = n mod 400"
  define mp where "mp = (if m > 2 then m - 3 else m + 9)"
  define doy where "doy = (153 * mp + 2) div 5 + d - 1"
  define c where "c = r div 100"
  define q where "q = r mod 100 div 4"
  define a where "a = r mod 4"
  define doe where "doe = r * 365 + r div 4 - r div 100 + doy"
  from assms have m: "1 \<le> m" "m \<le> 12" and d: "1 \<le> d" "d \<le> days_in_month y m"
    by (simp_all add: valid_date_def)
  have mp: "0 \<le> mp" "mp \<le> 11"
    using m by (simp_all add: mp_def)
  have f10: "(if mp < 10 then mp + 3 else mp - 9) = m"
    using m by (simp add: mp_def)
  have r: "0 \<le> r" "r < 400" and n: "n = 400 * E + r"
    by (simp_all add: r_def E_def)
  note digits = year_of_era_digits [OF r, folded c_def q_def a_def]
  have len: "d \<le> (153 * (mp + 1) + 2) div 5 - (153 * mp + 2) div 5"
    using march_month_length(1) [OF m, of y, folded mp_def] d(2) by linarith
  have f8: "(5 * doy + 2) div 153 = mp"
    unfolding doy_def by (rule month_of_doy [OF mp d(1) len])
  have f9: "doy - (153 * mp + 2) div 5 + 1 = d"
    by (simp add: doy_def)
  have doy0: "0 \<le> doy"
    using mp d(1) unfolding doy_def by linarith
  have doy_max: "doy \<le> 364 \<or> (doy = 365 \<and> m = 2 \<and> leap_year y)"
  proof (cases "m = 2")
    case True
    then have "(153 * mp + 2) div 5 = 337" by (simp add: mp_def)
    moreover from True d(2) have "d \<le> 28 \<or> (d = 29 \<and> leap_year y)"
      by (auto simp: days_in_month_def split: if_splits)
    ultimately show ?thesis using True unfolding doy_def by linarith
  next
    case False
    from march_month_length(2) [OF m False, of y, folded mp_def] d(2)
    show ?thesis unfolding doy_def by linarith
  qed
  have leap: "a = 3 \<and> (q \<le> 23 \<or> c = 3)" if "doy = 365"
  proof -
    from that doy_max have m2: "m = 2" and ly: "leap_year y" by auto
    from m2 have y: "y = 400 * E + r + 1"
      using n by (simp add: n_def)
    then have y4: "y = 4 * (100 * E + 25 * c + q) + (a + 1)"
      using digits(1) by (simp add: algebra_simps)
    have a3: "a = 3"
    proof (rule ccontr)
      assume "a \<noteq> 3"
      with digits(6,7) have "0 \<le> a + 1" "a + 1 < 4" by linarith+
      from int_mod_pos_eq [OF y4 this] have "y mod 4 = a + 1" .
      with ly digits(6) show False by (simp add: leap_year_def)
    qed
    have "q \<le> 23 \<or> c = 3"
    proof (rule ccontr)
      assume neg: "\<not> (q \<le> 23 \<or> c = 3)"
      with digits(5,3) have q24: "q = 24" and c2: "c \<le> 2" by linarith+
      have "y = 100 * (4 * E + c + 1) + 0"
        using y digits(1) a3 q24 by (simp add: algebra_simps)
      from int_mod_pos_eq [OF this] have y100: "y mod 100 = 0" by simp
      have "y = 400 * E + (100 * c + 100)"
        using y digits(1) a3 q24 by (simp add: algebra_simps)
      moreover have "0 \<le> 100 * c + 100" "100 * c + 100 < 400"
        using digits(2) c2 by linarith+
      ultimately have "y mod 400 = 100 * c + 100"
        by (rule int_mod_pos_eq)
      with digits(2) have "y mod 400 \<noteq> 0" by linarith
      with ly y100 show False by (simp add: leap_year_def)
    qed
    with a3 show ?thesis by simp
  qed
  have doe_eq: "doe = 36524 * c + 1461 * q + 365 * a + doy"
    unfolding doe_def digits(8) c_def [symmetric] using digits(1) by linarith
  have rest: "0 \<le> 1461 * q + 365 * a + doy"
    "1461 * q + 365 * a + doy \<le> 36523 \<or> (1461 * q + 365 * a + doy = 36524 \<and> c = 3)"
    using digits(4-7) doy0 doy_max leap by linarith+
  have doe_b: "0 \<le> doe" "doe < 146097"
    using doe_eq rest digits(2,3) by linarith+
  have z: "days_from_civil y m d + 719468 = 146097 * E + doe"
    by (simp add: days_from_civil_def Let_def n_def [symmetric] E_def [symmetric]
        r_def [symmetric] mp_def [symmetric] doy_def [symmetric] doe_def)
  have f1: "(days_from_civil y m d + 719468) div 146097 = E"
    by (rule int_div_pos_eq [OF z doe_b])
  have f2: "(days_from_civil y m d + 719468) mod 146097 = doe"
    by (rule int_mod_pos_eq [OF z doe_b])
  have f3: "min 3 (doe div 36524) = c"
    using doe_eq rest digits(2,3) by linarith
  have doc: "doe - 36524 * c = 1461 * q + (365 * a + doy)"
    using doe_eq by simp
  have doq: "0 \<le> 365 * a + doy" "365 * a + doy < 1461"
    using digits(6,7) doy0 doy_max leap by linarith+
  have f4: "(doe - 36524 * c) div 1461 = q"
    by (rule int_div_pos_eq [OF doc doq])
  have f5: "(doe - 36524 * c) mod 1461 = 365 * a + doy"
    by (rule int_mod_pos_eq [OF doc doq])
  have f6: "min 3 ((365 * a + doy) div 365) = a"
    using digits(6,7) doy0 doy_max leap by linarith
  have f7: "365 * a + doy - 365 * a = doy"
    by simp
  have f11: "400 * E + 100 * c + 4 * q + a + (if m \<le> 2 then 1 else 0) = y"
    using n digits(1) by (simp add: n_def split: if_splits)
  show ?thesis
    by (simp only: civil_from_days_def Let_def f1 f2 f3 f4 f5 f6 f7 f8 f9 f10 f11)
qed

lemma march_month_length_eq:
  assumes "1 \<le> m" "m \<le> 12" "m \<noteq> 2"
  shows "(153 * ((if m > 2 then m - 3 else m + 9) + 1) + 2) div 5
        - (153 * (if m > 2 then m - 3 else m + 9) + 2) div 5 = days_in_month y m"
  using month_cases [OF assms(1,2)] assms(3) by (elim disjE; simp add: days_in_month_def)

lemma civil_from_days_valid:
  assumes "civil_from_days z = (y, m, d)"
  shows "valid_date y m d"
proof -
  obtain era doe c q a doy mp where
    doe_b: "0 \<le> doe" "doe < 146097"
    and c: "c = min 3 (doe div 36524)"
    and a: "a = min 3 ((doe - 36524 * c) mod 1461 div 365)"
    and doy: "doy = (doe - 36524 * c) mod 1461 - 365 * a"
    and mp: "mp = (5 * doy + 2) div 153"
    and doe: "doe = 36524 * c + 1461 * q + 365 * a + doy"
    and b: "0 \<le> c" "c \<le> 3" "0 \<le> q" "q \<le> 24" "0 \<le> a" "a \<le> 3"
    and doy_b: "0 \<le> doy" "doy \<le> 365"
    and mp_b: "0 \<le> mp" "mp \<le> 11"
    and d_b: "1 \<le> doy - (153 * mp + 2) div 5 + 1" "doy - (153 * mp + 2) div 5 + 1 \<le> 31"
    and civ: "civil_from_days z =
           (400 * era + 100 * c + 4 * q + a + (if mp < 10 then 0 else 1),
            (if mp < 10 then mp + 3 else mp - 9),
            doy - (153 * mp + 2) div 5 + 1)"
    by (rule civil_from_days_fields [of z]) blast
  from civ assms have y: "y = 400 * era + 100 * c + 4 * q + a + (if mp < 10 then 0 else 1)"
    and m: "m = (if mp < 10 then mp + 3 else mp - 9)"
    and d: "d = doy - (153 * mp + 2) div 5 + 1"
    by simp_all
  have leap: "leap_year y" if last: "doy = 365"
  proof -
    define doq where "doq = (doe - 36524 * c) mod 1461"
    have "0 \<le> doq" "doq < 1461" by (simp_all add: doq_def)
    with a doy last have a3: "a = 3"
      unfolding doq_def [symmetric] by linarith
    have qc: "q \<le> 23 \<or> c = 3"
      using c doe last a3 b(4) by linarith
    from last mp have "mp = 11" by simp
    with y a3 have y': "y = 400 * era + 100 * c + 4 * q + 4" by simp
    then have "y = 4 * (100 * era + 25 * c + q + 1) + 0"
      by (simp add: algebra_simps)
    from int_mod_pos_eq [OF this] have y4: "y mod 4 = 0" by simp
    from qc have "y mod 100 \<noteq> 0 \<or> y mod 400 = 0"
    proof
      assume "q \<le> 23"
      with b(3) have r: "0 \<le> 4 * q + 4" "4 * q + 4 < 100" by linarith+
      have "y = 100 * (4 * era + c) + (4 * q + 4)"
        using y' by (simp add: algebra_simps)
      from int_mod_pos_eq [OF this r] b(3) show ?thesis by simp
    next
      assume "c = 3"
      show ?thesis
      proof (cases "q = 24")
        case True
        with y' \<open>c = 3\<close> have "y = 400 * (era + 1) + 0"
          by (simp add: algebra_simps)
        from int_mod_pos_eq [OF this] show ?thesis by simp
      next
        case False
        with b(3,4) have r: "0 \<le> 4 * q + 4" "4 * q + 4 < 100" by linarith+
        have "y = 100 * (4 * era + c) + (4 * q + 4)"
          using y' by (simp add: algebra_simps)
        from int_mod_pos_eq [OF this r] b(3) show ?thesis by simp
      qed
    qed
    with y4 show ?thesis by (simp add: leap_year_def)
  qed
  have m_b: "1 \<le> m" "m \<le> 12"
    using mp_b by (simp_all add: m)
  have mp_m: "mp = (if m > 2 then m - 3 else m + 9)"
    using mp_b by (simp add: m)
  have d1: "1 \<le> d"
    using d_b(1) by (simp add: d)
  have "5 * doy + 2 < 153 * mp + 153"
    using mp by linarith
  then have "doy + 1 \<le> (153 * mp + 155) div 5"
    by linarith
  moreover have "153 * (mp + 1) + 2 = 153 * mp + 155"
    by simp
  ultimately have dlen: "d \<le> (153 * (mp + 1) + 2) div 5 - (153 * mp + 2) div 5"
    unfolding d by simp
  show ?thesis
  proof (cases "m = 2")
    case True
    with mp_m have k: "mp = 11" by simp
    with d have "d = doy - 336" by simp
    then have "d \<le> 28 \<or> (d = 29 \<and> leap_year y)"
      using doy_b(2) leap by (cases "doy = 365") simp_all
    with d1 True show ?thesis
      by (auto simp: valid_date_def days_in_month_def)
  next
    case False
    from march_month_length_eq [OF m_b False, of y] dlen
    have "d \<le> days_in_month y m"
      by (simp only: mp_m [symmetric])
    with m_b d1 show ?thesis
      by (simp add: valid_date_def)
  qed
qed

lemma day_number_civil:
  assumes "civil_from_days z = (y, m, d)"
  shows "day_number y m d = z"
proof -
  from civil_from_days_valid [OF assms] have "1 \<le> m" "m \<le> 12"
    by (simp_all add: valid_date_def)
  then have "day_number y m d = days_from_civil y m d"
    by (simp add: days_from_civil_day_number)
  also have "\<dots> = z"
    using civil_roundtrip [of z] by (simp add: assms)
  finally show ?thesis .
qed

lemma day_number_unique:
  assumes "valid_date y m d" and "day_number y m d = z"
  shows "civil_from_days z = (y, m, d)"
proof -
  from assms(1) have "1 \<le> m" "m \<le> 12"
    by (simp_all add: valid_date_def)
  then have "days_from_civil y m d = z"
    using assms(2) by (simp add: days_from_civil_day_number)
  with civil_from_days_from_civil [OF assms(1)] show ?thesis by simp
qed

lemma time_of_day_unique:
  fixes n H M S secs :: int
  assumes "0 \<le> H" "H < 24" "0 \<le> M" "M < 60" "0 \<le> S" "S < 60"
      and "((n * 24 + H) * 60 + M) * 60 + S = secs"
  shows "n = secs div 86400" "H = secs mod 86400 div 3600"
    "M = secs mod 86400 mod 3600 div 60" "S = secs mod 86400 mod 60"
proof -
  define sod where "sod = 3600 * H + (60 * M + S)"
  have ms: "0 \<le> 60 * M + S" "60 * M + S < 3600"
    using assms(3-6) by linarith+
  have sod: "0 \<le> sod" "sod < 86400"
    using assms(1,2) ms unfolding sod_def by linarith+
  have "secs = 86400 * n + sod"
    using assms(7) by (simp add: sod_def algebra_simps)
  from int_div_pos_eq [OF this sod] int_mod_pos_eq [OF this sod]
  have n: "secs div 86400 = n" and m: "secs mod 86400 = sod" .
  have "sod = 3600 * H + (60 * M + S)"
    by (simp add: sod_def)
  from int_div_pos_eq [OF this ms] int_mod_pos_eq [OF this ms]
  have H: "sod div 3600 = H" and r: "sod mod 3600 = 60 * M + S" .
  have "60 * M + S = 60 * M + S" ..
  from int_div_pos_eq [OF this assms(5,6)] int_mod_pos_eq [OF this assms(5,6)]
  have M: "(60 * M + S) div 60 = M" and S: "(60 * M + S) mod 60 = S" .
  have "sod = 60 * (60 * H + M) + S"
    by (simp add: sod_def algebra_simps)
  from int_mod_pos_eq [OF this assms(5,6)] have S': "sod mod 60 = S" .
  show "n = secs div 86400" "H = secs mod 86400 div 3600"
    "M = secs mod 86400 mod 3600 div 60" "S = secs mod 86400 mod 60"
    by (simp_all only: n m H r M S')
qed

lemma length_dec_pos: "1 \<le> length (dec n)"
  by (subst dec.simps) simp

lemma length_dec_le_4: "n < 10000 \<Longrightarrow> length (dec n) \<le> 4"
proof -
  assume n: "n < 10000"
  have 1: "length (dec k) \<le> 1" if "k < 10" for k
    using that by (simp add: dec_lt10)
  have 2: "length (dec k) \<le> 2" if "k < 100" for k
    using that 1 [of "k div 10"] by (subst dec.simps) simp
  have 3: "length (dec k) \<le> 3" if "k < 1000" for k
    using that 2 [of "k div 10"] by (subst dec.simps) simp
  show ?thesis
    using n 3 [of "n div 10"] by (subst dec.simps) simp
qed

lemma length_dec_ge_4: "1000 \<le> n \<Longrightarrow> 4 \<le> length (dec n)"
proof -
  assume n: "1000 \<le> n"
  have "dec n = dec (n div 10) @ [digit (n mod 10)]"
    using n by (simp add: dec_ge10)
  moreover have "dec (n div 10) = dec (n div 10 div 10) @ [digit (n div 10 mod 10)]"
    using n by (simp add: dec_ge10)
  moreover have "dec (n div 10 div 10) = dec (n div 10 div 10 div 10) @ [digit (n div 10 div 10 mod 10)]"
    using n by (simp add: dec_ge10)
  ultimately show ?thesis
    using length_dec_pos [of "n div 10 div 10 div 10"] by simp
qed

lemma digit_value_digit: "k < 10 \<Longrightarrow> digit_value (digit k) = k"
  by (simp add: digit_value_def digit_def)

lemma digit_range: "k < 10 \<Longrightarrow> CHR ''0'' \<le> digit k \<and> digit k \<le> CHR ''9''"
  by (simp add: digit_def less_eq_char_def)

lemma decimal_value_dec: "decimal_value (dec n) = n"
proof (induction n rule: dec.induct)
  case (1 n)
  show ?case
  proof (cases "n < 10")
    case True
    then show ?thesis
      by (simp add: dec_lt10 decimal_value_def digit_value_digit)
  next
    case False
    with 1 have "decimal_value (dec (n div 10)) = n div 10" by simp
    then have "decimal_value (dec (n div 10) @ [digit (n mod 10)]) = 10 * (n div 10) + n mod 10"
      by (simp add: decimal_value_def digit_value_digit)
    with False show ?thesis
      by (simp add: dec_ge10)
  qed
qed

lemma dec_digits: "c \<in> set (dec n) \<Longrightarrow> CHR ''0'' \<le> c \<and> c \<le> CHR ''9''"
proof (induction n rule: dec.induct)
  case (1 n)
  show ?case
  proof (cases "n < 10")
    case True
    with "1.prems" digit_range [of n] show ?thesis
      by (simp add: dec_lt10)
  next
    case False
    with "1.prems" have "c \<in> set (dec (n div 10)) \<or> c = digit (n mod 10)"
      by (auto simp add: dec_ge10)
    then show ?thesis
      using "1.IH" [OF False] digit_range [of "n mod 10"] by auto
  qed
qed

lemma dec_no_leading_zero: "0 < n \<Longrightarrow> hd (dec n) \<noteq> CHR ''0''"
proof (induction n rule: dec.induct)
  case (1 n)
  show ?case
  proof (cases "n < 10")
    case True
    with "1.prems" have "digit_value (digit n) \<noteq> digit_value (CHR ''0'')"
      by (simp add: digit_value_digit) (simp add: digit_value_def)
    then have "digit n \<noteq> CHR ''0''" by auto
    with True show ?thesis by (simp add: dec_lt10)
  next
    case False
    then have "0 < n div 10" by simp
    from "1.IH" [OF False this] have "hd (dec (n div 10)) \<noteq> CHR ''0''" .
    moreover have "dec (n div 10) \<noteq> []"
      by (subst dec.simps) simp
    ultimately show ?thesis
      using False by (simp add: dec_ge10)
  qed
qed

lemma year_digits:
  "n < 10000 \<Longrightarrow> length (addLeadingZeros n 4) = 4"
  "1000 \<le> n \<Longrightarrow> addLeadingZeros n 4 = dec n"
  using length_dec_le_4 [of n] length_dec_ge_4 [of n] by (simp_all add: addLeadingZeros_def)

text \<open>
  C7. The formatter is a function of the timestamp alone. It renders
  2024-03-05T10:00:00Z as \<^verbatim>\<open>5/3/2024 17:00:00\<close>. For every timestamp that it
  accepts, the output is day, month and year separated by slashes, a space, and hours,
  minutes and seconds on two digits each separated by colons; day and month are printed
  without padding, and the year of the era on at least four digits (on four from year 1
  to year 9999, and as it is from year 1000 on). The date printed exists in the calendar,
  and it is, with the time printed, the only date and time of day that lies as many
  seconds after 1 January 1970, 00:00:00, as the instant seven hours later than the
  timestamp lies after the epoch. From the epoch to the end of year 9999 in the zone the
  year printed lies between 1970 and 9999. A timestamp outside the range of dates is
  refused. The numbers are printed in decimal: \<^const>\<open>dec\<close> gives the digits of its
  argument, most significant first and with no leading zero, and \<^const>\<open>digit\<close> the
  digit of a number below ten.
\<close>

theorem formatInTimeZone_bangkok:
  "formatInTimeZone 1709632800000 = Inr ''5/3/2024 17:00:00''
   \<and> (\<forall>t. \<bar>t\<bar> \<le> max_time \<and> \<bar>t + timeZone_offset\<bar> \<le> max_time \<longrightarrow>
        (\<exists>y m d H M S.
           formatInTimeZone t =
             Inr (dec (nat d) @ ''/'' @ dec (nat m) @ ''/''
                  @ addLeadingZeros (nat (year_of_era y)) 4 @ '' ''
                  @ [digit (nat H div 10), digit (nat H mod 10)] @ '':''
                  @ [digit (nat M div 10), digit (nat M mod 10)] @ '':''
                  @ [digit (nat S div 10), digit (nat S mod 10)])
           \<and> valid_date y m d \<and> 0 \<le> H \<and> H < 24 \<and> 0 \<le> M \<and> M < 60 \<and> 0 \<le> S \<and> S < 60
           \<and> ((day_number y m d * 24 + H) * 60 + M) * 60 + S = (t + 7 * 3600 * 1000) div 1000
           \<and> (\<forall>y' m' d' H' M' S'.
                 valid_date y' m' d' \<and> 0 \<le> H' \<and> H' < 24 \<and> 0 \<le> M' \<and> M' < 60
                 \<and> 0 \<le> S' \<and> S' < 60
                 \<and> ((day_number y' m' d' * 24 + H') * 60 + M') * 60 + S'
                     = (t + 7 * 3600 * 1000) div 1000
                 \<longrightarrow> y' = y \<and> m' = m \<and> d' = d \<and> H' = H \<and> M' = M \<and> S' = S)
           \<and> length (dec (nat d)) = (if d < 10 then 1 else 2)
           \<and> length (dec (nat m)) = (if m < 10 then 1 else 2)
           \<and> (1 \<le> y \<and> y \<le> 9999 \<longrightarrow> length (addLeadingZeros (nat (year_of_era y)) 4) = 4)
           \<and> (1000 \<le> y \<longrightarrow> addLeadingZeros (nat (year_of_era y)) 4 = dec (nat y))
           \<and> (0 \<le> t \<and> t < 253402275600000 \<longrightarrow> 1970 \<le> y \<and> y \<le> 9999)))
   \<and> (\<forall>t. \<bar>t\<bar> > max_time \<or> \<bar>t + timeZone_offset\<bar> > max_time
          \<longrightarrow> formatInTimeZone t = Inl RangeError)
   \<and> (\<forall>n. decimal_value (dec n) = n
          \<and> (\<forall>c\<in>set (dec n). CHR ''0'' \<le> c \<and> c \<le> CHR ''9'')
          \<and> (0 < n \<longrightarrow> hd (dec n) \<noteq> CHR ''0''))
   \<and> (\<forall>k<10. digit_value (digit k) = k \<and> CHR ''0'' \<le> digit k \<and> digit k \<le> CHR ''9'')"
proof (intro conjI allI impI)
  show "formatInTimeZone 1709632800000 = Inr ''5/3/2024 17:00:00''"
    by code_simp
next
  fix t :: int
  assume "\<bar>t\<bar> > max_time \<or> \<bar>t + timeZone_offset\<bar> > max_time"
  then show "formatInTimeZone t = Inl RangeError"
    by (simp add: formatInTimeZone_def)
next
  fix n
  show "decimal_value (dec n) = n"
    by (rule decimal_value_dec)
  show "\<forall>c\<in>set (dec n). CHR ''0'' \<le> c \<and> c \<le> CHR ''9''"
    using dec_digits by blast
  assume "0 < n"
  then show "hd (dec n) \<noteq> CHR ''0''"
    by (rule dec_no_leading_zero)
next
  fix k :: nat
  assume "k < 10"
  then show "digit_value (digit k) = k" "CHR ''0'' \<le> digit k" "digit k \<le> CHR ''9''"
    using digit_range [of k] by (simp_all add: digit_value_digit)
next
  fix t :: int
  assume valid: "\<bar>t\<bar> \<le> max_time \<and> \<bar>t + timeZone_offset\<bar> \<le> max_time"
  define secs where "secs = (t + timeZone_offset) div 1000"
  define days where "days = secs div 86400"
  define sod where "sod = secs mod 86400"
  define y where "y = fst (civil_from_days days)"
  define m where "m = fst (snd (civil_from_days days))"
  define d where "d = snd (snd (civil_from_days days))"
  define H where "H = sod div 3600"
  define M where "M = sod mod 3600 div 60"
  define S where "S = sod mod 60"
  have civ: "civil_from_days days = (y, m, d)"
    by (simp add: y_def m_def d_def)
  have secs_eq: "secs = (t + 7 * 3600 * 1000) div 1000"
    by (simp add: secs_def timeZone_offset_def)
  have sod: "0 \<le> sod" "sod < 86400" "secs = days * 86400 + sod"
    unfolding sod_def days_def by simp_all
  note tod = time_of_day [OF sod(1,2), folded H_def M_def S_def]
  have date: "valid_date y m d"
    by (rule civil_from_days_valid [OF civ])
  then have md: "1 \<le> m" "m \<le> 12" "1 \<le> d" "d \<le> 31"
    by (auto simp: valid_date_def days_in_month_def split: if_splits)
  have number: "day_number y m d = days"
    by (rule day_number_civil [OF civ])
  have zoned: "toZonedTime t =
      \<lparr>z_year = y, z_month = m, z_day = d, z_hours = H, z_minutes = M, z_seconds = S\<rparr>"
    by (simp add: toZonedTime_def Let_def secs_def [symmetric] days_def [symmetric]
        sod_def [symmetric] civ H_def M_def S_def)
  have fmt: "formatInTimeZone t =
      Inr (dec (nat d) @ ''/'' @ dec (nat m) @ ''/''
           @ addLeadingZeros (nat (year_of_era y)) 4 @ '' ''
           @ [digit (nat H div 10), digit (nat H mod 10)] @ '':''
           @ [digit (nat M div 10), digit (nat M mod 10)] @ '':''
           @ [digit (nat S div 10), digit (nat S mod 10)])"
  proof -
    have "addLeadingZeros (nat H) 2 = [digit (nat H div 10), digit (nat H mod 10)]"
      using tod(1,2) by (intro two_digits) linarith
    moreover have "addLeadingZeros (nat M) 2 = [digit (nat M div 10), digit (nat M mod 10)]"
      using tod(3,4) by (intro two_digits) linarith
    moreover have "addLeadingZeros (nat S) 2 = [digit (nat S div 10), digit (nat S mod 10)]"
      using tod(5,6) by (intro two_digits) linarith
    ultimately show ?thesis
      using valid by (simp add: formatInTimeZone_def formatString_def zoned)
  qed
  have instant: "((day_number y m d * 24 + H) * 60 + M) * 60 + S = (t + 7 * 3600 * 1000) div 1000"
  proof -
    have "((days * 24 + H) * 60 + M) * 60 + S = days * 86400 + (H * 3600 + M * 60 + S)"
      by (simp add: algebra_simps)
    also have "\<dots> = secs"
      by (simp only: tod(7) sod(3))
    finally show ?thesis
      by (simp only: number secs_eq)
  qed
  have unique: "y' = y \<and> m' = m \<and> d' = d \<and> H' = H \<and> M' = M \<and> S' = S"
    if other: "valid_date y' m' d' \<and> 0 \<le> H' \<and> H' < 24 \<and> 0 \<le> M' \<and> M' < 60
         \<and> 0 \<le> S' \<and> S' < 60
         \<and> ((day_number y' m' d' * 24 + H') * 60 + M') * 60 + S'
             = (t + 7 * 3600 * 1000) div 1000"
    for y' m' d' H' M' S'
  proof -
    from other have v: "valid_date y' m' d'"
      and r: "0 \<le> H'" "H' < 24" "0 \<le> M'" "M' < 60" "0 \<le> S'" "S' < 60"
      and e: "((day_number y' m' d' * 24 + H') * 60 + M') * 60 + S' = secs"
      by (simp_all add: secs_eq)
    note u = time_of_day_unique [OF r e]
    from u(1) have "day_number y' m' d' = days"
      by (simp add: days_def)
    from day_number_unique [OF v this] civ have "y' = y" "m' = m" "d' = d"
      by simp_all
    moreover from u(2-4) have "H' = H" "M' = M" "S' = S"
      by (simp_all add: H_def M_def S_def sod_def mod_mod_cancel)
    ultimately show ?thesis by simp
  qed
  have lens: "length (dec (nat d)) = (if d < 10 then 1 else 2)"
    "length (dec (nat m)) = (if m < 10 then 1 else 2)"
  proof -
    have "nat d < 100" "nat m < 100" "nat d < 10 \<longleftrightarrow> d < 10" "nat m < 10 \<longleftrightarrow> m < 10"
      using md by linarith+
    then show "length (dec (nat d)) = (if d < 10 then 1 else 2)"
      "length (dec (nat m)) = (if m < 10 then 1 else 2)"
      by (simp_all add: length_dec_1_2)
  qed
  have year4: "length (addLeadingZeros (nat (year_of_era y)) 4) = 4" if "1 \<le> y \<and> y \<le> 9999"
  proof -
    from that have "year_of_era y = y"
      by (simp add: year_of_era_def)
    moreover from that have "nat y < 10000"
      by linarith
    ultimately show ?thesis by (simp add: year_digits(1))
  qed
  have year_dec: "addLeadingZeros (nat (year_of_era y)) 4 = dec (nat y)" if "1000 \<le> y"
    using that year_digits(2) [of "nat y"] by (simp add: year_of_era_def)
  have range: "1970 \<le> y \<and> y \<le> 9999" if t: "0 \<le> t \<and> t < 253402275600000"
  proof -
    have "25200 \<le> secs" "secs < 253402300800"
      using t unfolding secs_def timeZone_offset_def by linarith+
    then have "0 \<le> days" "days < 2932897"
      unfolding days_def by linarith+
    from civil_year_lower [OF this(1)] civil_year_upper [OF this(2)] show ?thesis
      by (simp add: y_def)
  qed
  from fmt date tod(1-6) instant unique lens year4 year_dec range
  show "\<exists>y m d H M S.
           formatInTimeZone t =
             Inr (dec (nat d) @ ''/'' @ dec (nat m) @ ''/''
                  @ addLeadingZeros (nat (year_of_era y)) 4 @ '' ''
                  @ [digit (nat H div 10), digit (nat H mod 10)] @ '':''
                  @ [digit (nat M div 10), digit (nat M mod 10)] @ '':''
                  @ [digit (nat S div 10), digit (nat S mod 10)])
           \<and> valid_date y m d \<and> 0 \<le> H \<and> H < 24 \<and> 0 \<le> M \<and> M < 60 \<and> 0 \<le> S \<and> S < 60
           \<and> ((day_number y m d * 24 + H) * 60 + M) * 60 + S = (t + 7 * 3600 * 1000) div 1000
           \<and> (\<forall>y' m' d' H' M' S'.
                 valid_date y' m' d' \<and> 0 \<le> H' \<and> H' < 24 \<and> 0 \<le> M' \<and> M' < 60
                 \<and> 0 \<le> S' \<and> S' < 60
                 \<and> ((day_number y' m' d' * 24 + H') * 60 + M') * 60 + S'
                     = (t + 7 * 3600 * 1000) div 1000
                 \<longrightarrow> y' = y \<and> m' = m \<and> d' = d \<and> H' = H \<and> M' = M \<and> S' = S)
           \<and> length (dec (nat d)) = (if d < 10 then 1 else 2)
           \<and> length (dec (nat m)) = (if m < 10 then 1 else 2)
           \<and> (1 \<le> y \<and> y \<le> 9999 \<longrightarrow> length (addLeadingZeros (nat (year_of_era y)) 4) = 4)
           \<and> (1000 \<le> y \<longrightarrow> addLeadingZeros (nat (year_of_era y)) 4 = dec (nat y))
           \<and> (0 \<le> t \<and> t < 253402275600000 \<longrightarrow> 1970 \<le> y \<and> y \<le> 9999)"
    by blast
qed

theorem formatInTimeZone_bangkok_witness:
  "\<bar>951782400000\<bar> \<le> max_time \<and> \<bar>951782400000 + timeZone_offset\<bar> \<le> max_time
   \<and> (\<exists>y m d H M S.
         formatInTimeZone 951782400000 =
           Inr (dec (nat d) @ ''/'' @ dec (nat m) @ ''/''
                @ addLeadingZeros (nat (year_of_era y)) 4 @ '' ''
                @ [digit (nat H div 10), digit (nat H mod 10)] @ '':''
                @ [digit (nat M div 10), digit (nat M mod 10)] @ '':''
                @ [digit (nat S div 10), digit (nat S mod 10)])
         \<and> valid_date y m d \<and> 0 \<le> H \<and> H < 24 \<and> 0 \<le> M \<and> M < 60 \<and> 0 \<le> S \<and> S < 60
         \<and> ((day_number y m d * 24 + H) * 60 + M) * 60 + S
             = (951782400000 + 7 * 3600 * 1000) div 1000)
   \<and> formatInTimeZone 951782400000 = Inr ''29/2/2000 07:00:00''
   \<and> valid_date 2000 2 29
   \<and> ((day_number 2000 2 29 * 24 + 7) * 60 + 0) * 60 + 0 = (951782400000 + 7 * 3600 * 1000) div 1000
   \<and> \<bar>max_time + 1\<bar> > max_time
   \<and> formatInTimeZone (max_time + 1) = Inl RangeError
   \<and> decimal_value (dec 2000) = 2000 \<and> hd (dec 2000) \<noteq> CHR ''0''
   \<and> digit_value (digit 7) = 7"
proof -
  have h: "\<bar>951782400000\<bar> \<le> max_time \<and> \<bar>951782400000 + timeZone_offset\<bar> \<le> max_time"
    by (simp add: max_time_def timeZone_offset_def)
  have g: "\<bar>max_time + 1\<bar> > max_time \<or> \<bar>max_time + 1 + timeZone_offset\<bar> > max_time"
    by (simp add: max_time_def)
  note accepted = formatInTimeZone_bangkok
    [THEN conjunct2, THEN conjunct1, THEN spec [where x = "951782400000 :: int"], THEN mp, OF h]
  note refused = formatInTimeZone_bangkok
    [THEN conjunct2, THEN conjunct2, THEN conjunct1, THEN spec [where x = "max_time + 1"],
      THEN mp, OF g]
  note decimal = formatInTimeZone_bangkok
    [THEN conjunct2, THEN conjunct2, THEN conjunct2, THEN conjunct1, THEN spec [where x = 2000]]
  note digits = formatInTimeZone_bangkok
    [THEN conjunct2, THEN conjunct2, THEN conjunct2, THEN conjunct2,
      THEN spec [where x = 7], THEN mp]
  have year: "decimal_value (dec 2000) = 2000" "hd (dec 2000) \<noteq> CHR ''0''"
    using decimal by simp_all
  have seven: "digit_value (digit 7) = 7"
    using digits by simp
  have leap_day: "formatInTimeZone 951782400000 = Inr ''29/2/2000 07:00:00''"
    by code_simp
  have date: "valid_date 2000 2 29"
    by code_simp
  have number: "((day_number 2000 2 29 * 24 + 7) * 60 + 0) * 60 + 0
      = (951782400000 + 7 * 3600 * 1000) div 1000"
    by code_simp
  have big: "\<bar>max_time + 1\<bar> > max_time"
    by (simp add: max_time_def)
  from accepted refused h leap_day date number big year seven show ?thesis
    by blast
qed

section \<open>The search string is a pattern\<close>

text \<open>
  On a search string without metacharacters, the engine of this theory is the search for
  a substring, letter case apart.
\<close>

lemma parse_literal:
  "set q \<inter> set metachars = {} \<Longrightarrow> parse_pattern q = Some (map Lit q)"
proof (induction q)
  case Nil
  then show ?case by simp
next
  case (Cons c cs)
  then have "c \<notin> set metachars" "set cs \<inter> set metachars = {}" by auto
  moreover from this(1) have "c \<noteq> CHR 0x2E" by (auto simp: metachars_def)
  ultimately show ?case using Cons.IH by (simp add: parse_atom_def)
qed

lemma matches_at_literal:
  "matches_at (map Lit q) s \<longleftrightarrow> prefix (map toLower q) (map toLower s)"
proof (induction q arbitrary: s)
  case Nil
  show ?case by simp
next
  case (Cons c cs)
  show ?case by (cases s) (simp_all add: Cons.IH)
qed

lemma search_literal:
  "search (map Lit q) s \<longleftrightarrow> sublist (map toLower q) (map toLower s)"
proof (induction s)
  case Nil
  show ?case by (cases q) simp_all
next
  case (Cons c s)
  show ?case
  proof (cases q)
    case Nil
    then show ?thesis by simp
  next
    case (Cons a as)
    have "search (map Lit q) (c # s) \<longleftrightarrow> matches_at (map Lit q) (c # s) \<or> search (map Lit q) s"
      by simp
    also have "\<dots> \<longleftrightarrow> prefix (map toLower q) (map toLower (c # s))
        \<or> sublist (map toLower q) (map toLower s)"
      by (simp only: matches_at_literal Cons.IH)
    also have "\<dots> \<longleftrightarrow> sublist (map toLower q) (map toLower (c # s))"
      unfolding Cons by (simp add: sublist_code(3))
    finally show ?thesis .
  qed
qed

lemma regex_fragment_literal:
  assumes "set q \<inter> set metachars = {}"
  shows "regex_fragment q = Some (contains_ci q)"
  using parse_literal [OF assms]
  by (simp add: regex_fragment_def contains_ci_def search_literal fun_eq_iff)


text \<open>
  C2, at the search string \<^verbatim>\<open>.\<close> and a collection that holds one record of Bangkok:
  the dashboard shows Bangkok, although its name does not contain a dot. The handler
  passes the search string to the store as a pattern, where a dot stands for any
  character.
\<close>

theorem search_dot_matches_every_city:
  "aggregate sample_world ''.'' [weather ''Bangkok'' ''Central'' 1000]
     = Inr [\<lparr>regionName = ''Central'', provinces = [weather ''Bangkok'' ''Central'' 1000]\<rparr>]
   \<and> \<not> contains_ci ''.'' ''Bangkok''"
  by code_simp


text \<open>
  For a search string without metacharacters, the records shown are stored records whose
  city contains it, and every stored city that contains it is shown; an empty search
  string shows every stored city.
\<close>

lemma set_provinces_pipeline:
  "set (concat (map provinces (pipeline p docs)))
     = set (group_first city (sort_key (\<lambda>r. - timestamp r) (filter p docs)))"
  using mset_pipeline [of p docs] by (rule mset_eq_setD)

lemma literal_search_filters_by_substring:
  assumes lit: "set q \<inter> set metachars = {}" and q: "q \<noteq> []"
      and agg: "aggregate (w\<lparr>regex_i := regex_fragment\<rparr>) q docs = Inr views"
  shows "(\<forall>r \<in> set (concat (map provinces views)). r \<in> set docs \<and> contains_ci q (city r))
       \<and> (\<forall>d \<in> set docs. contains_ci q (city d)
             \<longrightarrow> city d \<in> city ` set (concat (map provinces views)))"
proof -
  let ?p = "\<lambda>r. contains_ci q (city r)"
  from agg q have views: "views = pipeline ?p docs"
    by (simp add: aggregate_def matchStage_def regex_fragment_literal [OF lit] split: if_splits)
  let ?latest = "group_first city (sort_key (\<lambda>r. - timestamp r) (filter ?p docs))"
  have out: "set (concat (map provinces views)) = set ?latest"
    unfolding views by (rule set_provinces_pipeline)
  have "set ?latest \<subseteq> set (filter ?p docs)"
    using set_group_first [of city "sort_key (\<lambda>r. - timestamp r) (filter ?p docs)"] by simp
  then have sound: "\<forall>r \<in> set (concat (map provinces views)). r \<in> set docs \<and> contains_ci q (city r)"
    unfolding out by auto
  have "city ` set ?latest = city ` set (filter ?p docs)"
    by (simp add: keys_group_first)
  then have "\<forall>d \<in> set docs. contains_ci q (city d)
             \<longrightarrow> city d \<in> city ` set (concat (map provinces views))"
    unfolding out by auto
  with sound show ?thesis by blast
qed

lemma empty_search_keeps_every_city:
  assumes agg: "aggregate w [] docs = Inr views"
  shows "city ` set (concat (map provinces views)) = city ` set docs"
proof -
  from agg have views: "views = pipeline (\<lambda>r. True) docs"
    by (simp add: aggregate_def matchStage_def split: if_splits)
  have "set (concat (map provinces views))
      = set (group_first city (sort_key (\<lambda>r. - timestamp r) (filter (\<lambda>r. True) docs)))"
    unfolding views by (rule set_provinces_pipeline)
  then have "city ` set (concat (map provinces views))
      = city ` set (group_first city (sort_key (\<lambda>r. - timestamp r) (filter (\<lambda>r. True) docs)))"
    by (rule arg_cong)
  also have "\<dots> = city ` set docs"
    by (simp add: keys_group_first)
  finally show ?thesis .
qed

end
